theory Spec2Isabelle
  imports Complex_Main "HOL-Library.Word" "HOL-Library.Log_Nat" "HOL-Library.AList"
begin

section \<open>IBFT round state and validator set (consensus/ibft/state.go)\<close>

subsection \<open>Addresses and the validator set\<close>

text \<open>
  \<^verbatim>\<open>types.Address\<close> is a 20-byte array and \<^verbatim>\<open>types.ZeroAddress\<close> the all-zero one.
  \<^verbatim>\<open>type ValidatorSet []types.Address\<close> is a slice: a list, whose length Go keeps in an
  \<^verbatim>\<open>int\<close> (64 bits).
\<close>

type_synonym Address = "160 word"

definition ZeroAddress :: Address where
  "ZeroAddress = 0"

type_synonym ValidatorSet = "Address list"

definition Len :: "ValidatorSet \<Rightarrow> int" where
  "Len v = int (length v)"

text \<open>
  \<^verbatim>\<open>Index\<close>: the loop \<^verbatim>\<open>for indx, i := range *v\<close> returns the first index holding
  \<^verbatim>\<open>addr\<close>, and -1 after the loop.
\<close>

fun Index_loop :: "Address list \<Rightarrow> Address \<Rightarrow> int \<Rightarrow> int" where
  "Index_loop [] addr indx = -1"
| "Index_loop (i # rest) addr indx =
     (if i = addr then indx else Index_loop rest addr (indx + 1))"

definition Index :: "ValidatorSet \<Rightarrow> Address \<Rightarrow> int" where
  "Index v addr = Index_loop v addr 0"

definition Includes :: "ValidatorSet \<Rightarrow> Address \<Rightarrow> bool" where
  "Includes v addr = (Index v addr \<noteq> -1)"

text \<open>
  \<^verbatim>\<open>CalcProposer\<close>. \<^verbatim>\<open>seed\<close>, \<^verbatim>\<open>round\<close> and \<^verbatim>\<open>pick\<close> are \<^verbatim>\<open>uint64\<close>: the sum
  \<^verbatim>\<open>uint64(offset) + round + 1\<close> wraps modulo \<open>2 ^ 64\<close>. \<^verbatim>\<open>seed % uint64(v.Len())\<close> panics
  (integer divide by zero) when the set is empty: the result \<open>None\<close>. The parameter
  \<^verbatim>\<open>round\<close> is written \<open>rnd\<close>.
\<close>

definition CalcProposer :: "ValidatorSet \<Rightarrow> 64 word \<Rightarrow> Address \<Rightarrow> Address option" where
  "CalcProposer v rnd lastProposer =
     (let seed =
        (if lastProposer = ZeroAddress then rnd
         else
           let indx = Index v lastProposer;
               offset = (if indx \<noteq> -1 then indx else 0)
           in (word_of_int offset :: 64 word) + rnd + 1)
      in if (word_of_int (Len v) :: 64 word) = 0 then None
         else
           let pick = seed mod (word_of_int (Len v) :: 64 word)
           in Some (v ! unat pick))"

text \<open>\<^verbatim>\<open>Add\<close>: \<^verbatim>\<open>*v = append(*v, addr)\<close>.\<close>

definition Add :: "ValidatorSet \<Rightarrow> Address \<Rightarrow> ValidatorSet" where
  "Add v addr = v @ [addr]"

text \<open>
  \<^verbatim>\<open>Del\<close>:
  \<^verbatim>\<open>for indx, i := range *v { if i == addr { *v = append((*v)[:indx], (*v)[indx+1:]...) } }\<close>.
  The \<^verbatim>\<open>range\<close> expression is evaluated once: the loop runs over the length the slice had
  at its start and reads \<^verbatim>\<open>i\<close> from the backing array, which the body changes in place.
  The state of the loop is the backing array \<open>arr\<close> (its first \<open>length v\<close> cells) and the
  length \<open>len\<close> of the current \<^verbatim>\<open>*v\<close>. \<^verbatim>\<open>(*v)[:indx]\<close> may reach beyond \<open>len\<close> (it is
  within the capacity); \<^verbatim>\<open>(*v)[indx+1:]\<close> panics (slice bounds out of range) when
  \<open>indx + 1 > len\<close>: the result \<open>None\<close>. The \<^verbatim>\<open>append\<close> copies the cells
  \<open>indx + 1 ..< len\<close> one place down and the new \<^verbatim>\<open>*v\<close> has length \<open>len - 1\<close>.
\<close>

definition Del_step ::
  "Address \<Rightarrow> nat \<Rightarrow> (Address list \<times> nat) option \<Rightarrow> (Address list \<times> nat) option" where
  "Del_step addr indx st =
     (case st of
        None \<Rightarrow> None
      | Some (arr, len) \<Rightarrow>
          if arr ! indx = addr then
            (if indx + 1 \<le> len
             then Some (take indx arr @ drop (indx + 1) (take len arr) @ drop (len - 1) arr,
                        len - 1)
             else None)
          else Some (arr, len))"

definition Del :: "ValidatorSet \<Rightarrow> Address \<Rightarrow> ValidatorSet option" where
  "Del v addr =
     (case fold (Del_step addr) [0..<length v] (Some (v, length v)) of
        None \<Rightarrow> None
      | Some (arr, len) \<Rightarrow> Some (take len arr))"

text \<open>\<^verbatim>\<open>Equal\<close>: the lengths are compared first, then the cells index by index.\<close>

definition Equal :: "ValidatorSet \<Rightarrow> ValidatorSet \<Rightarrow> bool" where
  "Equal v vv =
     (if length v \<noteq> length vv then False
      else list_all (\<lambda>indx. v ! indx = vv ! indx) [0..<length v])"

subsection \<open>float64 arithmetic used by MinFaultyNodes\<close>

text \<open>
  \<^verbatim>\<open>MinFaultyNodes\<close> computes \<^verbatim>\<open>int(math.Ceil(float64(len(*v))/3)) - 1\<close> in IEEE 754
  binary64. A finite binary64 value is a rational number, here a \<open>real\<close>; conversion from
  an integer and division round the exact result to the nearest value with a 53-bit
  significand, ties to the even significand. The values that arise here lie between \<open>1/3\<close> and \<open>2 ^ 63\<close> (or are 0),
  well inside the normal range, so neither overflow nor subnormal numbers are modelled.
\<close>

definition round_half_even :: "real \<Rightarrow> int" where
  "round_half_even x =
     (let f = \<lfloor>x\<rfloor>; d = x - of_int f
      in if d < 1 / 2 then f
         else if 1 / 2 < d then f + 1
         else if even f then f else f + 1)"

text \<open>The binary exponent \<open>e\<close> of a positive number: \<open>2 ^ e \<le> x < 2 ^ (e + 1)\<close>.\<close>

definition binary_exponent :: "real \<Rightarrow> int" where
  "binary_exponent x =
     (if 1 \<le> x then int (floorlog 2 (nat \<lfloor>x\<rfloor>)) - 1
      else - int (floorlog 2 (nat (\<lceil>1 / x\<rceil> - 1))))"

definition float64_round :: "real \<Rightarrow> real" where
  "float64_round x =
     (if x = 0 then 0
      else
        let ulp = (2 :: real) powi (binary_exponent \<bar>x\<bar> - 52)
        in sgn x * of_int (round_half_even (\<bar>x\<bar> / ulp)) * ulp)"

definition float64_of_int :: "int \<Rightarrow> real" where
  "float64_of_int n = float64_round (of_int n)"

definition float64_div :: "real \<Rightarrow> real \<Rightarrow> real" where
  "float64_div a b = float64_round (a / b)"

text \<open>
  \<^verbatim>\<open>math.Ceil\<close> is exact, and its result is an integer below \<open>2 ^ 63\<close> here, which
  \<^verbatim>\<open>int(...)\<close> converts exactly.
\<close>

definition MinFaultyNodes :: "ValidatorSet \<Rightarrow> int" where
  "MinFaultyNodes v = \<lceil>float64_div (float64_of_int (int (length v))) 3\<rceil> - 1"

subsection \<open>Consensus messages and the round state\<close>

text \<open>
  \<^verbatim>\<open>proto.MessageReq\<close> and \<^verbatim>\<open>proto.View\<close> are generated types; the fields the state uses
  are \<^verbatim>\<open>Type\<close>, \<^verbatim>\<open>View\<close> (a pointer, so possibly nil) and the sender, which
  \<^verbatim>\<open>FromAddr()\<close> reads from the message: the field \<open>From\<close> holds that address.
\<close>

datatype MessageReq_Type =
  MessageReq_Preprepare | MessageReq_Prepare | MessageReq_Commit | MessageReq_RoundChange

record View =
  Round :: "64 word"
  Sequence :: "64 word"

record MessageReq =
  Type :: MessageReq_Type
  View :: "View option"
  From :: Address

datatype error = Errorf string

text \<open>
  A Go map is an association list with pairwise distinct keys: \<^verbatim>\<open>m[k] = v\<close> is
  \<^const>\<open>AList.update\<close>, \<^verbatim>\<open>m[k]\<close> is \<^const>\<open>map_of\<close>, \<^verbatim>\<open>len(m)\<close> is the length of the
  list and \<^verbatim>\<open>range m\<close> visits the pairs in some order, here the order of the list.
\<close>

type_synonym messages = "(Address \<times> MessageReq) list"

record 'blk currentState =
  validators :: ValidatorSet
  state :: "64 word"
  block :: "'blk option"
  proposer :: Address
  view :: "View option"
  prepared :: messages
  committed :: messages
  roundMessages :: "(64 word \<times> messages) list"
  locked :: bool
  err :: "error option"

text \<open>\<^verbatim>\<open>NumValid\<close>: \<^verbatim>\<open>return 2 * c.validators.MinFaultyNodes()\<close>.\<close>

definition NumValid :: "'blk currentState \<Rightarrow> int" where
  "NumValid c = 2 * MinFaultyNodes (validators c)"

text \<open>
  \<^verbatim>\<open>maxRound\<close>: the named results \<^verbatim>\<open>maxRound\<close> and \<^verbatim>\<open>found\<close> start as \<open>0\<close> and
  \<open>False\<close>; each round of the map with at least \<^verbatim>\<open>num\<close> messages replaces them when
  \<^verbatim>\<open>maxRound < k\<close>.
\<close>

definition maxRound_step ::
  "int \<Rightarrow> 64 word \<times> messages \<Rightarrow> 64 word \<times> bool \<Rightarrow> 64 word \<times> bool" where
  "maxRound_step num kr acc =
     (case kr of (k, round_msgs) \<Rightarrow>
      case acc of (maxRound, found) \<Rightarrow>
        if int (length round_msgs) < num then (maxRound, found)
        else if maxRound < k then (k, True)
        else (maxRound, found))"

definition maxRound :: "'blk currentState \<Rightarrow> 64 word \<times> bool" where
  "maxRound c =
     (let num = MinFaultyNodes (validators c) + 1
      in fold (maxRound_step num) (roundMessages c) (0, False))"

text \<open>\<^verbatim>\<open>resetRoundMsgs\<close> and \<^verbatim>\<open>newState\<close>: the three maps are empty.\<close>

definition resetRoundMsgs :: "'blk currentState \<Rightarrow> 'blk currentState" where
  "resetRoundMsgs c = c\<lparr>prepared := [], committed := [], roundMessages := []\<rparr>"

text \<open>
  \<^verbatim>\<open>addMessage\<close>. A message from an address outside the validator set returns at once.
  A round-change message reads \<^verbatim>\<open>view.Round\<close> (the local \<^verbatim>\<open>view\<close> is \<open>vw\<close>
  here): with a nil \<^verbatim>\<open>View\<close> that is a nil
  pointer dereference, the result \<open>None\<close>. A message of any other type (a preprepare)
  changes nothing.
\<close>

definition addMessage :: "'blk currentState \<Rightarrow> MessageReq \<Rightarrow> 'blk currentState option" where
  "addMessage c msg =
     (let addr = From msg
      in if \<not> Includes (validators c) addr then Some c
         else if Type msg = MessageReq_Commit then
           Some (c\<lparr>committed := AList.update addr msg (committed c)\<rparr>)
         else if Type msg = MessageReq_Prepare then
           Some (c\<lparr>prepared := AList.update addr msg (prepared c)\<rparr>)
         else if Type msg = MessageReq_RoundChange then
           (case View msg of
              None \<Rightarrow> None
            | Some vw \<Rightarrow>
                let rms = (if map_of (roundMessages c) (Round vw) = None
                           then AList.update (Round vw) [] (roundMessages c)
                           else roundMessages c);
                    inner = (case map_of rms (Round vw) of None \<Rightarrow> [] | Some m \<Rightarrow> m)
                in Some (c\<lparr>roundMessages :=
                             AList.update (Round vw) (AList.update addr msg inner) rms\<rparr>))
         else Some c)"

text \<open>
  \<^verbatim>\<open>AddRoundMessage\<close> returns \<^verbatim>\<open>len(c.roundMessages[msg.View.Round])\<close>, which is 0 for a
  round without a map; \<^verbatim>\<open>addPrepared\<close> and \<^verbatim>\<open>addCommitted\<close> return nothing.
\<close>

definition AddRoundMessage ::
  "'blk currentState \<Rightarrow> MessageReq \<Rightarrow> ('blk currentState \<times> int) option" where
  "AddRoundMessage c msg =
     (if Type msg \<noteq> MessageReq_RoundChange then Some (c, 0)
      else
        case addMessage c msg of
          None \<Rightarrow> None
        | Some c' \<Rightarrow>
            (case View msg of
               None \<Rightarrow> None
             | Some vw \<Rightarrow>
                 Some (c', int (length (case map_of (roundMessages c') (Round vw) of
                                          None \<Rightarrow> [] | Some m \<Rightarrow> m)))))"

definition addPrepared :: "'blk currentState \<Rightarrow> MessageReq \<Rightarrow> 'blk currentState option" where
  "addPrepared c msg =
     (if Type msg \<noteq> MessageReq_Prepare then Some c else addMessage c msg)"

definition addCommitted :: "'blk currentState \<Rightarrow> MessageReq \<Rightarrow> 'blk currentState option" where
  "addCommitted c msg =
     (if Type msg \<noteq> MessageReq_Commit then Some c else addMessage c msg)"

text \<open>
  The invariant of the message maps. A bucket is well formed when its keys are pairwise
  distinct (it is a map), every key is a validator, and every message is stored under
  the address of its sender.
\<close>

definition bucket_ok :: "ValidatorSet \<Rightarrow> messages \<Rightarrow> bool" where
  "bucket_ok vs b \<longleftrightarrow>
     distinct (map fst b) \<and> (\<forall>(a, m) \<in> set b. a \<in> set vs \<and> From m = a)"

definition messages_ok :: "'blk currentState \<Rightarrow> bool" where
  "messages_ok c \<longleftrightarrow>
     bucket_ok (validators c) (prepared c)
     \<and> bucket_ok (validators c) (committed c)
     \<and> distinct (map fst (roundMessages c))
     \<and> (\<forall>(r, b) \<in> set (roundMessages c). bucket_ok (validators c) b)"

section \<open>Sync service (protocol/service_v1.go)\<close>

subsection \<open>Headers, requests, the store and the codec\<close>

text \<open>
  \<^verbatim>\<open>types.Header\<close> with the fields the repository sets (consensus/dev); \<^verbatim>\<open>Number\<close>
  is a \<^verbatim>\<open>uint64\<close>. \<^verbatim>\<open>types.Hash\<close> is a 32-byte array.
\<close>

type_synonym Hash = "256 word"

type_synonym bytes = "8 word list"

record Header =
  ParentHash :: Hash
  Number :: "64 word"
  StateRoot :: Hash
  GasLimit :: "64 word"
  GasUsed :: "64 word"
  Timestamp :: "64 word"
  Hash :: Hash

text \<open>
  \<^verbatim>\<open>proto.GetHeadersRequest\<close>: \<^verbatim>\<open>Number\<close>, \<^verbatim>\<open>Amount\<close> and \<^verbatim>\<open>Skip\<close> are \<^verbatim>\<open>int64\<close>
  (read with \<^const>\<open>sint\<close>, compared with \<open><s\<close>), \<^verbatim>\<open>Hash\<close> is a string. The fields
  carry the prefix \<open>req\<close>, the names \<open>Number\<close> and \<open>Hash\<close> being those of the header.
\<close>

record GetHeadersRequest =
  reqNumber :: "64 word"
  reqHash :: string
  reqAmount :: "64 word"
  reqSkip :: "64 word"

text \<open>
  \<^verbatim>\<open>proto.HashRequest\<close>: the hashes as strings and the kind of object. The kind is a
  protobuf enumeration, an \<^verbatim>\<open>int32\<close> on the wire, so a value that is neither
  \<^verbatim>\<open>BODIES\<close> nor \<^verbatim>\<open>RECEIPTS\<close> can arrive.
\<close>

datatype HashRequest_Type =
  HashRequest_BODIES | HashRequest_RECEIPTS | HashRequest_other "32 word"

record HashRequest =
  hashes :: "string list"
  kind :: HashRequest_Type

text \<open>
  The store \<^verbatim>\<open>blockchainShim\<close> is an interface; a lookup that returns a value and a
  \<^verbatim>\<open>bool\<close> is an option, one that returns a value and an \<^verbatim>\<open>error\<close> is a sum.
\<close>

record ('body, 'receipt) blockchainShim =
  GetHeaderByNumber :: "64 word \<Rightarrow> Header option"
  GetHeaderByHash :: "Hash \<Rightarrow> Header option"
  GetBodyByHash :: "Hash \<Rightarrow> 'body option"
  GetReceiptsByHash :: "Hash \<Rightarrow> error + 'receipt list"

text \<open>
  The encoders and decoders live in other packages (\<^verbatim>\<open>types\<close>, \<^verbatim>\<open>proto\<close>) and are
  parameters: \<^verbatim>\<open>Hash.UnmarshalText\<close>, \<^verbatim>\<open>HashRequest.DecodeHashes\<close>, and
  \<^verbatim>\<open>MarshalRLPTo(nil)\<close> of a header, a body and a receipt list.
\<close>

record ('body, 'receipt) codec =
  UnmarshalText :: "string \<Rightarrow> error + Hash"
  DecodeHashes :: "HashRequest \<Rightarrow> error + Hash list"
  MarshalHeader :: "Header \<Rightarrow> bytes"
  MarshalBody :: "'body \<Rightarrow> bytes"
  MarshalReceipts :: "'receipt list \<Rightarrow> bytes"

text \<open>
  \<^verbatim>\<open>proto.Response\<close>: the list \<^verbatim>\<open>Objs\<close>, each component holding the bytes
  \<^verbatim>\<open>Spec.Value\<close>. A response is the list of these byte strings.
\<close>

type_synonym Response = "bytes list"

subsection \<open>GetObjectsByHash\<close>

text \<open>
  One pass of the loop body: the lookup by kind, which for receipts may return the
  store's error, then the payload (\<^verbatim>\<open>obj.MarshalRLPTo(nil)\<close> when found, the empty byte
  slice otherwise).
\<close>

definition object_data ::
  "('body, 'receipt) codec \<Rightarrow> ('body, 'receipt) blockchainShim \<Rightarrow> HashRequest_Type \<Rightarrow> Hash
   \<Rightarrow> error + bytes" where
  "object_data cd store ty hash =
     (if ty = HashRequest_BODIES then
        (case GetBodyByHash store hash of
           Some obj \<Rightarrow> Inr (MarshalBody cd obj)
         | None \<Rightarrow> Inr [])
      else if ty = HashRequest_RECEIPTS then
        (case GetReceiptsByHash store hash of
           Inl e \<Rightarrow> Inl e
         | Inr raw \<Rightarrow> Inr (MarshalReceipts cd raw))
      else Inr [])"

fun GetObjectsByHash_loop ::
  "('body, 'receipt) codec \<Rightarrow> ('body, 'receipt) blockchainShim \<Rightarrow> HashRequest_Type
   \<Rightarrow> Hash list \<Rightarrow> Response \<Rightarrow> error + Response" where
  "GetObjectsByHash_loop cd store ty [] resp = Inr resp"
| "GetObjectsByHash_loop cd store ty (hash # rest) resp =
     (case object_data cd store ty hash of
        Inl e \<Rightarrow> Inl e
      | Inr data \<Rightarrow> GetObjectsByHash_loop cd store ty rest (resp @ [data]))"

definition GetObjectsByHash ::
  "('body, 'receipt) codec \<Rightarrow> ('body, 'receipt) blockchainShim \<Rightarrow> HashRequest
   \<Rightarrow> error + Response" where
  "GetObjectsByHash cd store req =
     (case DecodeHashes cd req of
        Inl e \<Rightarrow> Inl e
      | Inr hs \<Rightarrow> GetObjectsByHash_loop cd store (kind req) hs [])"

subsection \<open>GetHeaders\<close>

definition maxHeadersAmount :: "64 word" where
  "maxHeadersAmount = 190"

text \<open>
  The loop \<^verbatim>\<open>for count < req.Amount\<close>: \<^verbatim>\<open>block := int64(origin.Number) + skip\<close> wraps in
  64 bits (\<open>blk\<close> here); a negative \<^verbatim>\<open>block\<close> or a height the store does not have ends the loop;
  otherwise the header found becomes \<^verbatim>\<open>origin\<close> and its encoding is appended.
\<close>

function GetHeaders_loop ::
  "('body, 'receipt) codec \<Rightarrow> ('body, 'receipt) blockchainShim \<Rightarrow> 64 word \<Rightarrow> 64 word
   \<Rightarrow> 64 word \<Rightarrow> Header \<Rightarrow> Response \<Rightarrow> Response" where
  "GetHeaders_loop cd store amount skip count origin resp =
     (if count <s amount then
        (let blk = Number origin + skip
         in if blk <s 0 then resp
            else
              case GetHeaderByNumber store blk of
                None \<Rightarrow> resp
              | Some origin' \<Rightarrow>
                  GetHeaders_loop cd store amount skip (count + 1) origin'
                    (resp @ [MarshalHeader cd origin']))
      else resp)"
  by pat_completeness auto

text \<open>
  \<^verbatim>\<open>count\<close> stays below \<^verbatim>\<open>req.Amount\<close> inside the loop, so \<^verbatim>\<open>count++\<close> does not
  overflow and the distance to \<^verbatim>\<open>req.Amount\<close> shrinks: the loop ends.
\<close>

termination GetHeaders_loop
proof (relation "measure (\<lambda>(cd, store, amount, skip, count, origin, resp).
                    nat (sint amount - sint count))")
  show "wf (measure (\<lambda>(cd :: ('a, 'b) codec, store :: ('a, 'b) blockchainShim, amount, skip,
                       count, origin :: Header, resp :: Response).
                    nat (sint amount - sint count)))"
    by simp
next
  fix cd :: "('a, 'b) codec" and store :: "('a, 'b) blockchainShim"
    and amount skip count :: "64 word" and origin :: Header and resp :: Response
    and x2 :: Header
  assume lt: "count <s amount"
  have less: "sint count < sint amount"
    using lt by (simp add: word_sless_alt)
  moreover have "sint amount < 2 ^ 63"
    using sint_lt [of amount] by simp
  moreover have "- (2 ^ 63) \<le> sint count"
    using sint_ge [of count] by simp
  ultimately have "- (2 ^ 63) \<le> sint count + 1" and "sint count + 1 < 2 ^ 63"
    by linarith+
  then have "signed_take_bit 63 (sint count + 1) = sint count + 1"
    by (simp add: signed_take_bit_int_eq_self)
  then have "sint (count + 1) = sint count + 1"
    by (simp add: sint_word_ariths)
  with less
  show "((cd, store, amount, skip, count + 1, x2, resp @ [MarshalHeader cd x2]),
         (cd, store, amount, skip, count, origin, resp))
        \<in> measure (\<lambda>(cd, store, amount, skip, count, origin, resp).
               nat (sint amount - sint count))"
    by simp
qed

definition GetHeaders ::
  "('body, 'receipt) codec \<Rightarrow> ('body, 'receipt) blockchainShim \<Rightarrow> GetHeadersRequest
   \<Rightarrow> error + Response" where
  "GetHeaders cd store req =
     (if reqNumber req \<noteq> 0 \<and> reqHash req \<noteq> '''' then Inl (Errorf ''cannot have both'')
      else
        let amount = (if maxHeadersAmount <s reqAmount req then maxHeadersAmount
                      else reqAmount req)
        in case (if reqNumber req \<noteq> 0 then Inr (GetHeaderByNumber store (reqNumber req))
                 else
                   case UnmarshalText cd (reqHash req) of
                     Inl e \<Rightarrow> Inl e
                   | Inr hash \<Rightarrow> Inr (GetHeaderByHash store hash)) of
             Inl e \<Rightarrow> Inl e
           | Inr None \<Rightarrow> Inr []
           | Inr (Some origin) \<Rightarrow>
               let skip = reqSkip req + 1
               in Inr (GetHeaders_loop cd store amount skip 1 origin
                         [MarshalHeader cd origin]))"

section \<open>Example data\<close>

text \<open>
  A round state, a store holding the headers 0 to 20, and a codec, on which the theorems
  below are evaluated. The example store has the body of hash 1 only and fails on the
  receipts of hash 2; the example codec reads a hash string as its length and rejects
  the empty string.
\<close>

definition example_msg :: "MessageReq_Type \<Rightarrow> 64 word \<Rightarrow> Address \<Rightarrow> MessageReq" where
  "example_msg ty r a = \<lparr>Type = ty, View = Some \<lparr>Round = r, Sequence = 1\<rparr>, From = a\<rparr>"

definition example_state :: "ValidatorSet \<Rightarrow> (64 word \<times> messages) list \<Rightarrow> unit currentState" where
  "example_state vs rms =
     \<lparr>validators = vs, state = 0, block = None, proposer = 0, view = None,
      prepared = [], committed = [], roundMessages = rms, locked = False, err = None\<rparr>"

definition example_header :: "64 word \<Rightarrow> Header" where
  "example_header n =
     \<lparr>ParentHash = 0, Number = n, StateRoot = 0, GasLimit = 0, GasUsed = 0, Timestamp = 0,
      Hash = ucast n\<rparr>"

definition example_store :: "(nat, nat) blockchainShim" where
  "example_store =
     \<lparr>GetHeaderByNumber = (\<lambda>n. if n \<le> 20 then Some (example_header n) else None),
      GetHeaderByHash = (\<lambda>h. if h \<le> 20 then Some (example_header (ucast h)) else None),
      GetBodyByHash = (\<lambda>h. if h = 1 then Some 7 else None),
      GetReceiptsByHash = (\<lambda>h. if h = 2 then Inl (Errorf ''receipts not found'') else Inr [3])\<rparr>"

definition example_codec :: "(nat, nat) codec" where
  "example_codec =
     \<lparr>UnmarshalText = (\<lambda>s. if s = [] then Inl (Errorf ''empty hash'')
                            else Inr (of_nat (length s))),
      DecodeHashes = (\<lambda>r. Inr (map (\<lambda>s. of_nat (length s)) (hashes r))),
      MarshalHeader = (\<lambda>h. [ucast (Number h)]),
      MarshalBody = (\<lambda>b. [of_nat b]),
      MarshalReceipts = map of_nat\<rparr>"

section \<open>Properties of the validator set\<close>

subsection \<open>Index and Includes\<close>

lemma Index_loop_takeWhile:
  "Index_loop xs addr k =
     (if addr \<in> set xs then k + int (length (takeWhile (\<lambda>x. x \<noteq> addr) xs)) else -1)"
  by (induction xs arbitrary: k) auto

lemma Index_eq:
  "Index v addr =
     (if addr \<in> set v then int (length (takeWhile (\<lambda>x. x \<noteq> addr) v)) else -1)"
  by (simp add: Index_def Index_loop_takeWhile)

lemma Includes_iff: "Includes v addr \<longleftrightarrow> addr \<in> set v"
  by (simp add: Includes_def Index_eq)

subsection \<open>Equal, Add and Del\<close>

lemma Equal_iff_eq: "Equal v vv \<longleftrightarrow> v = vv"
proof (cases "length v = length vv")
  case True
  have "list_all (\<lambda>indx. v ! indx = vv ! indx) [0..<length v] \<longleftrightarrow> v = vv"
  proof
    assume "list_all (\<lambda>indx. v ! indx = vv ! indx) [0..<length v]"
    then have "\<And>i. i < length v \<Longrightarrow> v ! i = vv ! i"
      by (simp add: list_all_iff)
    with True show "v = vv" by (rule nth_equalityI)
  next
    assume "v = vv"
    then show "list_all (\<lambda>indx. v ! indx = vv ! indx) [0..<length v]"
      by (simp add: list_all_iff)
  qed
  with True show ?thesis by (simp add: Equal_def)
next
  case False
  then show ?thesis by (auto simp: Equal_def)
qed

text \<open>As long as no cell matches, the loop of \<^verbatim>\<open>Del\<close> leaves the slice alone.\<close>

lemma Del_fold_no_match:
  "\<forall>i<k. arr ! i \<noteq> addr \<Longrightarrow>
   fold (Del_step addr) [0..<k] (Some (arr, len)) = Some (arr, len)"
  by (induction k) (simp_all add: Del_step_def)

lemma Del_Add_fresh:
  assumes "addr \<notin> set v"
  shows "Del (Add v addr) addr = Some v"
proof -
  have no: "\<forall>i<length v. (v @ [addr]) ! i \<noteq> addr"
    using assms by (auto simp: nth_append)
  have "fold (Del_step addr) [0..<length (v @ [addr])]
          (Some (v @ [addr], length (v @ [addr])))
        = Del_step addr (length v) (Some (v @ [addr], Suc (length v)))"
    using Del_fold_no_match [OF no, of "Suc (length v)"] by simp
  then show ?thesis
    by (simp add: Del_def Add_def Del_step_def)
qed

text \<open>
  C9. \<^verbatim>\<open>Equal\<close> is reflexive and symmetric, and for an address \<open>a\<close> that is not in
  \<open>v\<close>, \<^verbatim>\<open>Add(a)\<close> followed by \<^verbatim>\<open>Del(a)\<close> does not panic and yields a set that is
  \<^verbatim>\<open>Equal\<close> to \<open>v\<close> (it is \<open>v\<close> itself, in the same order).
\<close>

theorem Equal_refl_sym_Add_Del:
  "Equal v v
   \<and> Equal v w = Equal w v
   \<and> (a \<notin> set v \<longrightarrow> (\<exists>v'. Del (Add v a) a = Some v' \<and> Equal v' v \<and> v' = v))"
  by (auto simp: Equal_iff_eq Del_Add_fresh)

theorem Equal_refl_sym_Add_Del_witness:
  "Equal [1, 2] [1, 2]
   \<and> Equal [1, 2] [2, 1] = Equal [2, 1] [1, 2]
   \<and> (3 :: Address) \<notin> set [1, 2]
   \<and> (\<exists>v'. Del (Add [1, 2] 3) 3 = Some v' \<and> Equal v' [1, 2] \<and> v' = [1, 2])"
  using Equal_refl_sym_Add_Del [of "[1, 2]" "[2, 1]" 3] by simp

subsection \<open>CalcProposer\<close>

lemma unat_Len:
  assumes "length v < 2 ^ 63"
  shows "unat (word_of_int (Len v) :: 64 word) = length v"
proof -
  have "length v < 2 ^ 64"
    using assms by (simp add: order_less_trans [where y = "2 ^ 63"])
  then show ?thesis
    by (simp add: Len_def unat_of_nat)
qed

lemma CalcProposer_unfold:
  assumes "v \<noteq> []" and "length v < 2 ^ 63"
  shows "CalcProposer v rnd lastProposer =
     Some (v ! (unat (if lastProposer = ZeroAddress then rnd
                      else word_of_int (if Index v lastProposer \<noteq> -1
                                        then Index v lastProposer else 0) + rnd + 1)
                mod length v))"
proof -
  have n: "unat (word_of_int (Len v) :: 64 word) = length v"
    using assms(2) by (rule unat_Len)
  have "(word_of_int (Len v) :: 64 word) \<noteq> 0"
    using n assms(1) by (metis length_0_conv unat_0)
  then show ?thesis
    by (simp add: CalcProposer_def Let_def unat_mod n)
qed

lemma CalcProposer_rotation:
  "CalcProposer [A, B, C, D] 0 ZeroAddress = Some A
   \<and> CalcProposer [A, B, C, D] 1 ZeroAddress = Some B
   \<and> CalcProposer [A, B, C, D] 4 ZeroAddress = Some A"
  by (simp add: CalcProposer_def Len_def)

text \<open>
  C1, as the code has it. The claim fails for the empty set, where the modulus by the
  length panics, and for rounds near \<open>2 ^ 64\<close>, where the seed wraps: with the set
  \<open>[1, 2, 3]\<close>, last proposer \<open>1\<close> (index 0) and round \<open>2 ^ 64 - 1\<close> the seed is 0 and the
  proposer is \<open>1\<close>, while \<open>(0 + (2 ^ 64 - 1) + 1) mod 3 = 1\<close> selects \<open>2\<close>.
\<close>

theorem CalcProposer_counterexample:
  "CalcProposer [] 0 ZeroAddress = None
   \<and> CalcProposer [1, 2, 3] 18446744073709551615 1 = Some 1
   \<and> [1, 2, 3 :: Address] ! ((0 + 18446744073709551615 + 1) mod 3) = 2"
  by (simp add: CalcProposer_def Len_def ZeroAddress_def Index_def)

text \<open>
  C1, amended. For a validator set that is not empty (and whose length fits Go's
  \<^verbatim>\<open>int\<close>), \<^verbatim>\<open>CalcProposer\<close> returns \<open>v ! (seed mod n)\<close>, where the seed is the round
  when the last proposer is the zero address and otherwise
  \<open>(index + round + 1) mod 2 ^ 64\<close>, the index being that of the first occurrence of the
  last proposer, or 0 when it is not in the set. The result is a member of the set. With
  four validators \<open>A, B, C, D\<close> and the zero address as last proposer, rounds 0, 1 and 4
  select \<open>A\<close>, \<open>B\<close> and \<open>A\<close>.
\<close>

theorem CalcProposer_seed_mod_len:
  assumes "v \<noteq> []" and "length v < 2 ^ 63"
  shows "(\<exists>p. CalcProposer v rnd lastProposer = Some p
            \<and> p = v ! ((if lastProposer = ZeroAddress then unat rnd
                         else ((if lastProposer \<in> set v
                                then length (takeWhile (\<lambda>x. x \<noteq> lastProposer) v) else 0)
                               + unat rnd + 1) mod 2 ^ 64)
                        mod length v)
            \<and> p \<in> set v)
         \<and> CalcProposer [A, B, C, D] 0 ZeroAddress = Some A
         \<and> CalcProposer [A, B, C, D] 1 ZeroAddress = Some B
         \<and> CalcProposer [A, B, C, D] 4 ZeroAddress = Some A"
proof -
  let ?off = "if lastProposer \<in> set v
              then length (takeWhile (\<lambda>x. x \<noteq> lastProposer) v) else 0"
  have off: "(if Index v lastProposer \<noteq> -1 then Index v lastProposer else 0) = int ?off"
    by (simp add: Index_eq)
  have "unat ((word_of_int (int ?off) :: 64 word) + rnd + 1)
        = (?off + unat rnd + 1) mod 2 ^ 64"
    by (simp add: unat_word_ariths unat_of_nat mod_simps)
  then have "CalcProposer v rnd lastProposer =
     Some (v ! ((if lastProposer = ZeroAddress then unat rnd
                 else (?off + unat rnd + 1) mod 2 ^ 64) mod length v))"
    unfolding CalcProposer_unfold [OF assms] off by simp
  moreover have "k mod length v < length v" for k
    using assms(1) by simp
  ultimately have "\<exists>p. CalcProposer v rnd lastProposer = Some p
            \<and> p = v ! ((if lastProposer = ZeroAddress then unat rnd
                         else (?off + unat rnd + 1) mod 2 ^ 64) mod length v)
            \<and> p \<in> set v"
    by (metis nth_mem)
  then show ?thesis
    using CalcProposer_rotation [of A B C D] by blast
qed

theorem CalcProposer_seed_mod_len_witness:
  "[1, 2, 3 :: Address] \<noteq> [] \<and> length [1, 2, 3 :: Address] < 2 ^ 63
   \<and> (\<exists>p. CalcProposer [1, 2, 3] 5 2 = Some p \<and> p = 2 \<and> p \<in> set [1, 2, 3])"
  using CalcProposer_seed_mod_len [of "[1, 2, 3]" 5 2] by (simp add: ZeroAddress_def)

section \<open>MinFaultyNodes and NumValid\<close>

text \<open>
  Integers below \<open>2 ^ 53\<close> are binary64 values, and a third of such an integer lies
  below \<open>2 ^ 52\<close>, where neighbouring binary64 values are at most \<open>1/2\<close> apart: the
  rounded quotient stays on the same side of the integers as the exact one.
\<close>

lemma round_half_even_of_int: "round_half_even (of_int k) = k"
  by (simp add: round_half_even_def)

lemma round_half_even_cases:
  "(round_half_even x = \<lfloor>x\<rfloor> \<and> x - of_int \<lfloor>x\<rfloor> \<le> 1 / 2)
   \<or> (round_half_even x = \<lfloor>x\<rfloor> + 1 \<and> 1 / 2 \<le> x - of_int \<lfloor>x\<rfloor>)"
  by (auto simp: round_half_even_def Let_def)

lemma round_half_even_lower: "x - 1 / 2 \<le> of_int (round_half_even x)"
proof -
  have f: "x < of_int \<lfloor>x\<rfloor> + 1" by linarith
  from round_half_even_cases [of x] show ?thesis
  proof (elim disjE conjE)
    assume "round_half_even x = \<lfloor>x\<rfloor>" and half: "x - of_int \<lfloor>x\<rfloor> \<le> 1 / 2"
    then have "of_int (round_half_even x) = (of_int \<lfloor>x\<rfloor> :: real)" by simp
    with half show ?thesis by linarith
  next
    assume "round_half_even x = \<lfloor>x\<rfloor> + 1"
    then have "of_int (round_half_even x) = (of_int \<lfloor>x\<rfloor> + 1 :: real)" by simp
    with f show ?thesis by linarith
  qed
qed

lemma round_half_even_le_ceiling: "round_half_even x \<le> \<lceil>x\<rceil>"
  using round_half_even_cases [of x]
proof (elim disjE conjE)
  assume "round_half_even x = \<lfloor>x\<rfloor>"
  then show ?thesis by (simp add: floor_le_ceiling)
next
  assume up: "round_half_even x = \<lfloor>x\<rfloor> + 1" and "1 / 2 \<le> x - of_int \<lfloor>x\<rfloor>"
  then have "of_int \<lfloor>x\<rfloor> < x" by linarith
  then have "\<lfloor>x\<rfloor> < \<lceil>x\<rceil>" by (simp add: less_ceiling_iff)
  with up show ?thesis by simp
qed

lemma binary_exponent_less:
  assumes "0 < x" and "x < 2 ^ k" and "0 < k"
  shows "binary_exponent x < int k"
proof (cases "1 \<le> x")
  case True
  have "\<lfloor>x\<rfloor> < 2 ^ k"
    using assms(2) by (simp add: floor_less_iff)
  then have "nat \<lfloor>x\<rfloor> < 2 ^ k"
    using True by (simp add: nat_less_iff)
  then have "floorlog 2 (nat \<lfloor>x\<rfloor>) \<le> k"
    by (simp add: floorlog_le_iff)
  with True show ?thesis by (simp add: binary_exponent_def)
next
  case False
  with assms(3) show ?thesis by (simp add: binary_exponent_def)
qed

lemma float64_round_pos:
  assumes "0 < x" and "x < 2 ^ k" and "0 < k" and "k \<le> 53"
  shows "\<exists>M::nat. 2 ^ (53 - k) \<le> M \<and>
           float64_round x = of_int (round_half_even (x * of_nat M)) / of_nat M"
proof -
  let ?e = "binary_exponent x"
  have e: "?e < int k" using assms(1-3) by (rule binary_exponent_less)
  define d where "d = nat (52 - ?e)"
  have d: "53 - k \<le> d" and de: "?e - 52 = - int d"
    using e assms(4) by (simp_all add: d_def)
  have ulp: "(2 :: real) powi (?e - 52) = 1 / 2 ^ d"
    unfolding de by (simp add: power_int_minus_divide)
  have "float64_round x = of_int (round_half_even (x * of_nat (2 ^ d))) / of_nat (2 ^ d)"
    using assms(1) by (simp add: float64_round_def ulp Let_def)
  moreover have "(2 :: nat) ^ (53 - k) \<le> 2 ^ d"
    using d by (simp add: power_increasing)
  ultimately show ?thesis by blast
qed

lemma float64_of_int_exact:
  assumes "0 \<le> n" and "n < 2 ^ 53"
  shows "float64_of_int n = of_int n"
proof (cases "n = 0")
  case True
  then show ?thesis by (simp add: float64_of_int_def float64_round_def)
next
  case False
  with assms have "0 < (of_int n :: real)" by simp
  moreover have "(of_int n :: real) < of_int (2 ^ 53)"
    using assms(2) by (simp only: of_int_less_iff)
  then have "(of_int n :: real) < 2 ^ 53" by simp
  ultimately have "0 < (of_int n :: real)" and "(of_int n :: real) < 2 ^ 53" .
  from float64_round_pos [OF this, simplified]
  obtain M :: nat where M: "1 \<le> M"
    and r: "float64_round (of_int n) = of_int (round_half_even (of_int n * of_nat M)) / of_nat M"
    by auto
  have "of_int n * (of_nat M :: real) = of_int (n * int M)" by simp
  then have "round_half_even (of_int n * of_nat M) = n * int M"
    by (simp only: round_half_even_of_int)
  with r M show ?thesis by (simp add: float64_of_int_def)
qed

lemma float64_third_ceiling:
  assumes k: "0 \<le> k" and r: "r = 1 \<or> r = 2" and n: "3 * k + r < 2 ^ 53"
  shows "\<lceil>float64_div (of_int (3 * k + r)) 3\<rceil> = k + 1"
proof -
  define x :: real where "x = of_int (3 * k + r) / 3"
  have x: "x = of_int k + of_int r / 3"
    by (simp add: x_def field_simps)
  have r3: "1 / 3 \<le> (of_int r :: real) / 3" "(of_int r :: real) / 3 \<le> 2 / 3"
    using r by auto
  have lo: "of_int k + 1 / 3 \<le> x" and hi: "x \<le> of_int k + 1"
    using r3 unfolding x by linarith+
  have pos: "0 < x" using k lo by linarith
  have "3 * k + r < 3 * 2 ^ 52" using n by simp
  then have "(of_int (3 * k + r) :: real) < of_int (3 * 2 ^ 52)"
    by (simp only: of_int_less_iff)
  then have lt: "x < 2 ^ 52" by (simp add: x_def)
  from float64_round_pos [OF pos lt]
  obtain M :: nat where M: "2 \<le> M"
    and fr: "float64_round x = of_int (round_half_even (x * of_nat M)) / of_nat M"
    by auto
  define m :: real where "m = of_nat M"
  define y :: real where "y = of_int (round_half_even (x * m))"
  have m2: "2 \<le> m" using M by (simp add: m_def)
  then have mpos: "0 < m" by linarith
  have "x * m \<le> (of_int k + 1) * m"
    using hi mpos by (intro mult_right_mono) simp_all
  also have "\<dots> = of_int ((k + 1) * int M)"
    by (simp add: m_def)
  finally have "\<lceil>x * m\<rceil> \<le> (k + 1) * int M"
    by (simp only: ceiling_le_iff)
  with round_half_even_le_ceiling [of "x * m"]
  have "round_half_even (x * m) \<le> (k + 1) * int M" by linarith
  then have "y \<le> of_int ((k + 1) * int M)"
    unfolding y_def by (simp only: of_int_le_iff)
  then have "y \<le> (of_int k + 1) * m"
    by (simp add: m_def)
  then have "y / m \<le> (of_int k + 1) * m / m"
    using mpos by (intro divide_right_mono) simp_all
  then have upper: "y / m \<le> of_int k + 1"
    using mpos by simp
  have "x * m - 1 / 2 \<le> y"
    unfolding y_def by (rule round_half_even_lower)
  then have "(x * m - 1 / 2) / m \<le> y / m"
    using mpos by (intro divide_right_mono) simp_all
  moreover have "(x * m - 1 / 2) / m = x - 1 / (2 * m)"
    using mpos by (simp add: field_simps)
  moreover have "1 / (2 * m) \<le> 1 / 4"
    using m2 mpos by (simp add: field_simps)
  ultimately have lower: "of_int k < y / m"
    using lo by linarith
  have "\<lceil>y / m\<rceil> = k + 1"
    using lower upper by (simp add: ceiling_eq_iff)
  then have "\<lceil>float64_round x\<rceil> = k + 1"
    unfolding fr y_def m_def .
  then show ?thesis
    unfolding float64_div_def x_def .
qed

lemma float64_third_exact:
  assumes k: "0 \<le> k" and n: "3 * k < 2 ^ 53"
  shows "\<lceil>float64_div (of_int (3 * k)) 3\<rceil> = k"
proof -
  have "float64_div (of_int (3 * k)) 3 = float64_of_int k"
    by (simp add: float64_div_def float64_of_int_def)
  moreover have "k < 2 ^ 53" using k n by simp
  ultimately show ?thesis
    using k by (simp add: float64_of_int_exact)
qed

lemma MinFaultyNodes_small:
  assumes "length v < 2 ^ 53"
  shows "MinFaultyNodes v = (int (length v) + 2) div 3 - 1"
proof -
  define n where "n = int (length v)"
  have n0: "0 \<le> n" by (simp add: n_def)
  have "int (length v) < int (2 ^ 53)"
    using assms by (simp only: of_nat_less_iff)
  then have n53: "n < 2 ^ 53" by (simp add: n_def)
  define k r where "k = n div 3" and "r = n mod 3"
  have n: "n = 3 * k + r" and r: "0 \<le> r" "r < 3" and k: "0 \<le> k"
    using n0 by (simp_all add: k_def r_def pos_imp_zdiv_nonneg_iff)
  have conv: "float64_of_int n = of_int n"
    using n0 n53 by (rule float64_of_int_exact)
  have "\<lceil>float64_div (of_int n) 3\<rceil> = (n + 2) div 3"
  proof (cases "r = 0")
    case True
    with n n53 k float64_third_exact [of k] show ?thesis by simp
  next
    case False
    with r have "r = 1 \<or> r = 2" by linarith
    moreover from this have "(n + 2) div 3 = k + 1"
      unfolding n by auto
    ultimately show ?thesis
      using float64_third_ceiling [of k r] k n n53 by simp
  qed
  with conv show ?thesis
    by (simp add: MinFaultyNodes_def n_def)
qed

lemma ceiling_third: "\<lceil>real n / 3\<rceil> = (int n + 2) div 3"
proof -
  have "\<lceil>real n / 3\<rceil> = \<lceil>(of_int (int n) :: real) / of_int 3\<rceil>" by simp
  also have "\<dots> = - (- int n div 3)" by (rule ceiling_divide_eq_div)
  also have "\<dots> = (int n + 2) div 3" by presburger
  finally show ?thesis .
qed

text \<open>
  C5. A slice of 20-byte addresses that a Go program can hold has fewer than \<open>2 ^ 53\<close>
  cells (the address space is far smaller than \<open>20 * 2 ^ 53\<close> bytes). For every such
  validator set of length \<open>n \<ge> 1\<close>, \<^verbatim>\<open>MinFaultyNodes\<close> returns exactly
  \<open>\<lceil>n / 3\<rceil> - 1\<close>: 0 for \<open>n = 1, 2, 3\<close> and 1 for \<open>n = 4, 5, 6\<close>. For every state
  \<^verbatim>\<open>NumValid\<close> is twice \<^verbatim>\<open>MinFaultyNodes\<close> of its validators, so \<^verbatim>\<open>NumValid() + 1\<close> is
  \<open>2 f + 1\<close>.
\<close>

theorem MinFaultyNodes_ceiling:
  assumes "1 \<le> length v" and "length v < 2 ^ 53"
  shows "MinFaultyNodes v = \<lceil>real (length v) / 3\<rceil> - 1
       \<and> (length v \<in> {1, 2, 3} \<longrightarrow> MinFaultyNodes v = 0)
       \<and> (length v \<in> {4, 5, 6} \<longrightarrow> MinFaultyNodes v = 1)
       \<and> NumValid c = 2 * MinFaultyNodes (validators c)
       \<and> NumValid c + 1 = 2 * MinFaultyNodes (validators c) + 1"
proof -
  have eq: "MinFaultyNodes v = (int (length v) + 2) div 3 - 1"
    using assms(2) by (rule MinFaultyNodes_small)
  then have "MinFaultyNodes v = \<lceil>real (length v) / 3\<rceil> - 1"
    by (simp only: ceiling_third)
  moreover have "length v \<in> {1, 2, 3} \<longrightarrow> MinFaultyNodes v = 0"
    unfolding eq by auto
  moreover have "length v \<in> {4, 5, 6} \<longrightarrow> MinFaultyNodes v = 1"
    unfolding eq by auto
  ultimately show ?thesis
    by (simp add: NumValid_def)
qed

theorem MinFaultyNodes_ceiling_witness:
  "1 \<le> length [1, 2, 3, 4 :: Address] \<and> length [1, 2, 3, 4 :: Address] < 2 ^ 53
   \<and> MinFaultyNodes [1, 2, 3, 4] = 1
   \<and> NumValid (example_state [1, 2, 3, 4] []) + 1 = 3"
  using MinFaultyNodes_ceiling [of "[1, 2, 3, 4]" "example_state [1, 2, 3, 4] []"]
  by (simp add: example_state_def)

lemma float64_of_int_big: "float64_of_int 9007199254740997 = 9007199254740996"
  by (simp add: float64_of_int_def float64_round_def binary_exponent_def round_half_even_def
      compute_floorlog Let_def)

lemma float64_div_big: "float64_div 9007199254740996 3 = 3002399751580332"
  by (simp add: float64_div_def float64_round_def binary_exponent_def round_half_even_def
      compute_floorlog Let_def)

text \<open>
  The bound on the length is one of the arithmetic model only: above \<open>2 ^ 53\<close> the
  conversion \<^verbatim>\<open>float64(len(*v))\<close> rounds, and a list of \<open>2 ^ 53 + 5\<close> cells, which no
  Go slice of addresses can have, is converted to \<open>2 ^ 53 + 4\<close>.
\<close>

lemma MinFaultyNodes_beyond_exact_range:
  "MinFaultyNodes (replicate 9007199254740997 0) = 3002399751580331
   \<and> \<lceil>(9007199254740997 :: real) / 3\<rceil> - 1 = 3002399751580332"
  by (simp add: MinFaultyNodes_def float64_of_int_big float64_div_big)


section \<open>Properties of the round state\<close>

subsection \<open>maxRound\<close>

text \<open>
  What the loop computes: the value is the greatest round with at least \<open>f + 1\<close>
  messages (0 when there is none), and \<^verbatim>\<open>found\<close> is set exactly when such a round is
  above 0.
\<close>

lemma maxRound_step_pair:
  "maxRound_step num (k, b) (m, f) =
     (if int (length b) < num then (m, f) else if m < k then (k, True) else (m, f))"
  by (simp add: maxRound_step_def)

lemma maxRound_fold:
  "fold (maxRound_step num) rms (m, f) =
     (fold max (map fst (filter (\<lambda>(k, b). \<not> int (length b) < num) rms)) m,
      f \<or> (\<exists>(k, b) \<in> set rms. \<not> int (length b) < num \<and> m < k))"
proof (induction rms arbitrary: m f)
  case Nil
  then show ?case by simp
next
  case (Cons kb rms)
  obtain k b where kb: "kb = (k, b)" by (cases kb)
  show ?case
  proof (cases "int (length b) < num")
    case True
    then show ?thesis
      by (simp add: kb maxRound_step_pair Cons.IH)
  next
    case q: False
    show ?thesis
    proof (cases "m < k")
      case True
      then have "max k m = k" by simp
      with q True show ?thesis
        by (auto simp: kb maxRound_step_pair Cons.IH)
    next
      case False
      then have "max k m = m" by simp
      moreover have "(\<exists>(k', b') \<in> set rms. \<not> int (length b') < num \<and> m < k')
          \<longleftrightarrow> (\<exists>(k', b') \<in> set ((k, b) # rms). \<not> int (length b') < num \<and> m < k')"
        using False by auto
      ultimately show ?thesis
        using q False by (simp add: kb maxRound_step_pair Cons.IH)
    qed
  qed
qed

lemma maxRound_found_iff:
  "snd (maxRound c) \<longleftrightarrow>
     (\<exists>(k, b) \<in> set (roundMessages c).
        MinFaultyNodes (validators c) + 1 \<le> int (length b) \<and> 0 < k)"
proof -
  have "snd (maxRound c) \<longleftrightarrow>
     (\<exists>(k, b) \<in> set (roundMessages c).
        \<not> int (length b) < MinFaultyNodes (validators c) + 1 \<and> 0 < k)"
    unfolding maxRound_def Let_def maxRound_fold by simp
  also have "\<dots> \<longleftrightarrow> (\<exists>(k, b) \<in> set (roundMessages c).
        MinFaultyNodes (validators c) + 1 \<le> int (length b) \<and> 0 < k)"
    by (simp only: not_less)
  finally show ?thesis .
qed

lemma maxRound_value:
  "fst (maxRound c) =
     fold max (map fst (filter (\<lambda>(k, b). MinFaultyNodes (validators c) + 1 \<le> int (length b))
                          (roundMessages c))) 0"
proof -
  have "(\<lambda>(k :: 64 word, b :: messages). \<not> int (length b) < MinFaultyNodes (validators c) + 1)
        = (\<lambda>(k, b). MinFaultyNodes (validators c) + 1 \<le> int (length b))"
    by (simp only: not_less)
  then show ?thesis
    unfolding maxRound_def Let_def maxRound_fold by simp
qed

lemma MinFaultyNodes_single: "MinFaultyNodes [a] = 0"
  using MinFaultyNodes_small [of "[a]"] by simp

text \<open>
  C4, at the failing input. One validator gives \<open>f = 0\<close>, so a round qualifies with one
  message. With the only round-change message in round 0, round 0 qualifies, and
  \<^verbatim>\<open>maxRound\<close> returns \<open>(0, false)\<close>: the test \<^verbatim>\<open>maxRound < k\<close> never holds for
  \<open>k = 0\<close>, so \<^verbatim>\<open>found\<close> is never set.
\<close>

theorem maxRound_round_zero_not_found:
  "MinFaultyNodes [1] + 1 = 1
   \<and> int (length [(1 :: Address, example_msg MessageReq_RoundChange 0 1)]) \<ge> MinFaultyNodes [1] + 1
   \<and> maxRound (example_state [1] [(0, [(1, example_msg MessageReq_RoundChange 0 1)])])
       = (0, False)"
  by (simp add: maxRound_def maxRound_step_def example_state_def MinFaultyNodes_single)

lemma maxRound_example_found:
  "maxRound (example_state [1] [(5, [(1, example_msg MessageReq_RoundChange 5 1)])])
       = (5, True)"
  by (simp add: maxRound_def maxRound_step_def example_state_def MinFaultyNodes_single)

subsection \<open>addMessage and its wrappers\<close>

lemma set_update_cases:
  "(a, b) \<in> set (AList.update k v al) \<Longrightarrow> (a, b) = (k, v) \<or> (a, b) \<in> set al"
  by (induction al) (auto split: if_splits)

lemma bucket_ok_empty: "bucket_ok vs []"
  by (simp add: bucket_ok_def)

lemma bucket_ok_update:
  assumes "bucket_ok vs b" and "Includes vs (From m)"
  shows "bucket_ok vs (AList.update (From m) m b)"
proof -
  have "distinct (map fst (AList.update (From m) m b))"
    using assms(1) by (simp add: bucket_ok_def distinct_update)
  moreover have "a \<in> set vs \<and> From m' = a"
    if "(a, m') \<in> set (AList.update (From m) m b)" for a m'
    using set_update_cases [OF that] assms by (auto simp: bucket_ok_def Includes_iff)
  ultimately show ?thesis
    by (auto simp: bucket_ok_def)
qed

lemma buckets_ok_update:
  assumes "\<forall>(r, b) \<in> set rms. bucket_ok vs b" and "bucket_ok vs b'"
  shows "\<forall>(r, b) \<in> set (AList.update k b' rms). bucket_ok vs b"
proof -
  have "bucket_ok vs b" if "(r, b) \<in> set (AList.update k b' rms)" for r b
    using set_update_cases [OF that] assms by auto
  then show ?thesis by auto
qed

lemma buckets_ok_lookup:
  assumes "\<forall>(r, b) \<in> set rms. bucket_ok vs b"
  shows "bucket_ok vs (case map_of rms k of None \<Rightarrow> [] | Some m \<Rightarrow> m)"
proof (cases "map_of rms k")
  case None
  then show ?thesis by (simp add: bucket_ok_empty)
next
  case (Some m)
  then have "(k, m) \<in> set rms" by (rule map_of_SomeD)
  with assms Some show ?thesis by auto
qed

lemma addMessage_messages_ok:
  assumes ok: "messages_ok c" and run: "addMessage c msg = Some c'"
  shows "messages_ok c'"
proof (cases "Includes (validators c) (From msg)")
  case False
  with run ok show ?thesis by (simp add: addMessage_def)
next
  case inc: True
  show ?thesis
  proof (cases "Type msg")
    case MessageReq_Preprepare
    with run inc ok show ?thesis by (simp add: addMessage_def)
  next
    case MessageReq_Prepare
    with run inc have "c' = c\<lparr>prepared := AList.update (From msg) msg (prepared c)\<rparr>"
      by (simp add: addMessage_def)
    with ok inc show ?thesis
      by (simp add: messages_ok_def bucket_ok_update)
  next
    case MessageReq_Commit
    with run inc have "c' = c\<lparr>committed := AList.update (From msg) msg (committed c)\<rparr>"
      by (simp add: addMessage_def)
    with ok inc show ?thesis
      by (simp add: messages_ok_def bucket_ok_update)
  next
    case MessageReq_RoundChange
    with run inc obtain vw where vw: "View msg = Some vw"
      by (cases "View msg") (auto simp: addMessage_def)
    define rms where "rms = (if map_of (roundMessages c) (Round vw) = None
                           then AList.update (Round vw) [] (roundMessages c)
                           else roundMessages c)"
    define inner where "inner = (case map_of rms (Round vw) of None \<Rightarrow> [] | Some m \<Rightarrow> m)"
    have c': "c' = c\<lparr>roundMessages :=
                       AList.update (Round vw) (AList.update (From msg) msg inner) rms\<rparr>"
      using run inc MessageReq_RoundChange vw
      by (simp add: addMessage_def Let_def rms_def inner_def)
    have old: "\<forall>(r, b) \<in> set (roundMessages c). bucket_ok (validators c) b"
      and dist: "distinct (map fst (roundMessages c))"
      using ok by (simp_all add: messages_ok_def)
    have rms_ok: "\<forall>(r, b) \<in> set rms. bucket_ok (validators c) b"
      unfolding rms_def using old buckets_ok_update [OF old bucket_ok_empty] by simp
    have rms_dist: "distinct (map fst rms)"
      unfolding rms_def using dist by (simp add: distinct_update)
    have "bucket_ok (validators c) inner"
      unfolding inner_def using rms_ok by (rule buckets_ok_lookup)
    then have "bucket_ok (validators c) (AList.update (From msg) msg inner)"
      using inc by (rule bucket_ok_update)
    with rms_ok have "\<forall>(r, b) \<in> set (AList.update (Round vw)
        (AList.update (From msg) msg inner) rms). bucket_ok (validators c) b"
      by (rule buckets_ok_update)
    with ok rms_dist show ?thesis
      unfolding c' by (simp add: messages_ok_def distinct_update)
  qed
qed

lemma addMessage_not_validator:
  "\<not> Includes (validators c) (From msg) \<Longrightarrow> addMessage c msg = Some c"
  by (simp add: addMessage_def)

lemma addMessage_returns:
  "View msg \<noteq> None \<Longrightarrow> \<exists>c'. addMessage c msg = Some c'"
  by (auto simp: addMessage_def Let_def)

text \<open>
  C6. In a state whose message maps are well formed, \<^verbatim>\<open>addMessage\<close>, \<^verbatim>\<open>addPrepared\<close>,
  \<^verbatim>\<open>addCommitted\<close> and \<^verbatim>\<open>AddRoundMessage\<close> leave them well formed: in the prepared map,
  the committed map and every per-round map each address has at most one entry, every
  key is a validator and every message is stored under its sender. A message whose
  sender is not a validator leaves the state as it is. The calls return whenever the
  message carries a view.
\<close>

theorem addMessage_preserves_messages_ok:
  assumes "messages_ok c"
  shows "(\<forall>c'. addMessage c msg = Some c' \<longrightarrow> messages_ok c')
       \<and> (\<forall>c'. addPrepared c msg = Some c' \<longrightarrow> messages_ok c')
       \<and> (\<forall>c'. addCommitted c msg = Some c' \<longrightarrow> messages_ok c')
       \<and> (\<forall>c' n. AddRoundMessage c msg = Some (c', n) \<longrightarrow> messages_ok c')
       \<and> (\<not> Includes (validators c) (From msg) \<longrightarrow>
            addMessage c msg = Some c \<and> addPrepared c msg = Some c
            \<and> addCommitted c msg = Some c
            \<and> (\<forall>c' n. AddRoundMessage c msg = Some (c', n) \<longrightarrow> c' = c))
       \<and> (View msg \<noteq> None \<longrightarrow>
            (\<exists>c'. addMessage c msg = Some c') \<and> (\<exists>c'. addPrepared c msg = Some c')
            \<and> (\<exists>c'. addCommitted c msg = Some c')
            \<and> (\<exists>c' n. AddRoundMessage c msg = Some (c', n)))"
proof (intro conjI allI impI)
  fix c' assume "addMessage c msg = Some c'"
  with assms show "messages_ok c'" by (rule addMessage_messages_ok)
next
  fix c' assume "addPrepared c msg = Some c'"
  then show "messages_ok c'"
    using assms addMessage_messages_ok [OF assms, of msg c']
    by (auto simp: addPrepared_def split: if_splits)
next
  fix c' assume "addCommitted c msg = Some c'"
  then show "messages_ok c'"
    using assms addMessage_messages_ok [OF assms, of msg c']
    by (auto simp: addCommitted_def split: if_splits)
next
  fix c' n assume "AddRoundMessage c msg = Some (c', n)"
  then show "messages_ok c'"
    using assms addMessage_messages_ok [OF assms, of msg c']
    by (auto simp: AddRoundMessage_def split: if_splits option.splits)
next
  assume "\<not> Includes (validators c) (From msg)"
  then show "addMessage c msg = Some c" by (rule addMessage_not_validator)
next
  assume "\<not> Includes (validators c) (From msg)"
  then show "addPrepared c msg = Some c"
    by (simp add: addPrepared_def addMessage_not_validator)
next
  assume "\<not> Includes (validators c) (From msg)"
  then show "addCommitted c msg = Some c"
    by (simp add: addCommitted_def addMessage_not_validator)
next
  fix c' n
  assume "\<not> Includes (validators c) (From msg)" and "AddRoundMessage c msg = Some (c', n)"
  then show "c' = c"
    by (auto simp: AddRoundMessage_def addMessage_not_validator split: if_splits option.splits)
next
  assume "View msg \<noteq> None"
  then show "\<exists>c'. addMessage c msg = Some c'" by (rule addMessage_returns)
next
  assume "View msg \<noteq> None"
  then show "\<exists>c'. addPrepared c msg = Some c'"
    using addMessage_returns [of msg c] by (simp add: addPrepared_def)
next
  assume "View msg \<noteq> None"
  then show "\<exists>c'. addCommitted c msg = Some c'"
    using addMessage_returns [of msg c] by (simp add: addCommitted_def)
next
  assume v: "View msg \<noteq> None"
  then obtain c' where "addMessage c msg = Some c'"
    using addMessage_returns [of msg c] by blast
  with v show "\<exists>c' n. AddRoundMessage c msg = Some (c', n)"
    by (auto simp: AddRoundMessage_def)
qed

lemma example_state_ok: "messages_ok (example_state [1, 2] [])"
  by (simp add: messages_ok_def example_state_def bucket_ok_def)

theorem addMessage_preserves_messages_ok_witness:
  "messages_ok (example_state [1, 2] [])
   \<and> addMessage (example_state [1, 2] []) (example_msg MessageReq_Commit 0 1)
       = Some ((example_state [1, 2] [])\<lparr>committed := [(1, example_msg MessageReq_Commit 0 1)]\<rparr>)
   \<and> messages_ok ((example_state [1, 2] [])\<lparr>committed := [(1, example_msg MessageReq_Commit 0 1)]\<rparr>)
   \<and> AddRoundMessage (example_state [1, 2] []) (example_msg MessageReq_RoundChange 3 2)
       = Some (example_state [1, 2] [(3, [(2, example_msg MessageReq_RoundChange 3 2)])], 1)
   \<and> messages_ok (example_state [1, 2] [(3, [(2, example_msg MessageReq_RoundChange 3 2)])])
   \<and> \<not> Includes [1, 2] 7
   \<and> addMessage (example_state [1, 2] []) (example_msg MessageReq_Commit 0 7)
       = Some (example_state [1, 2] [])"
proof -
  have ok: "messages_ok (example_state [1, 2] [])" by (rule example_state_ok)
  have 1: "addMessage (example_state [1, 2] []) (example_msg MessageReq_Commit 0 1)
       = Some ((example_state [1, 2] [])\<lparr>committed := [(1, example_msg MessageReq_Commit 0 1)]\<rparr>)"
    by (simp add: addMessage_def example_state_def example_msg_def Includes_iff)
  have 2: "AddRoundMessage (example_state [1, 2] []) (example_msg MessageReq_RoundChange 3 2)
       = Some (example_state [1, 2] [(3, [(2, example_msg MessageReq_RoundChange 3 2)])], 1)"
    by (simp add: AddRoundMessage_def addMessage_def example_state_def example_msg_def
        Includes_iff Let_def)
  have 3: "\<not> Includes [1, 2] 7" by (simp add: Includes_iff)
  have 4: "validators (example_state [1, 2] []) = [1, 2]"
    and 5: "From (example_msg MessageReq_Commit 0 7) = 7"
    by (simp_all add: example_state_def example_msg_def)
  show ?thesis
    using addMessage_preserves_messages_ok [OF ok, of "example_msg MessageReq_Commit 0 1"]
      addMessage_preserves_messages_ok [OF ok, of "example_msg MessageReq_RoundChange 3 2"]
      addMessage_preserves_messages_ok [OF ok, of "example_msg MessageReq_Commit 0 7"]
      ok 1 2 3 4 5
    by simp
qed

section \<open>Properties of the sync service\<close>

subsection \<open>The example store and codec\<close>

lemma example_store_numbers:
  "\<forall>k h. GetHeaderByNumber example_store k = Some h \<longrightarrow> Number h = k"
  by (auto simp: example_store_def example_header_def)

lemma example_codec_simps:
  "UnmarshalText example_codec s
     = (if s = [] then Inl (Errorf ''empty hash'') else Inr (of_nat (length s)))"
  "DecodeHashes example_codec r = Inr (map (\<lambda>s. of_nat (length s)) (hashes r))"
  "MarshalHeader example_codec h = [ucast (Number h)]"
  "MarshalBody example_codec b = [of_nat b]"
  "MarshalReceipts example_codec rs = map of_nat rs"
  by (simp_all add: example_codec_def)

lemma example_store_simps:
  "GetHeaderByNumber example_store n = (if n \<le> 20 then Some (example_header n) else None)"
  "GetHeaderByHash example_store h
     = (if h \<le> 20 then Some (example_header (ucast h)) else None)"
  "GetBodyByHash example_store h = (if h = 1 then Some 7 else None)"
  "GetReceiptsByHash example_store h
     = (if h = 2 then Inl (Errorf ''receipts not found'') else Inr [3])"
  by (simp_all add: example_store_def)

lemma example_header_Number: "Number (example_header n) = n"
  by (simp add: example_header_def)

subsection \<open>GetObjectsByHash and the origin of GetHeaders\<close>

lemma GetObjectsByHash_loop_Inr:
  "GetObjectsByHash_loop cd store ty hs acc = Inr resp \<Longrightarrow>
   \<exists>ds. resp = acc @ ds \<and> list_all2 (\<lambda>h d. object_data cd store ty h = Inr d) hs ds"
proof (induction hs arbitrary: acc)
  case Nil
  then show ?case by simp
next
  case (Cons h hs)
  from Cons.prems obtain d where d: "object_data cd store ty h = Inr d"
    and rest: "GetObjectsByHash_loop cd store ty hs (acc @ [d]) = Inr resp"
    by (auto split: sum.splits)
  from Cons.IH [OF rest] obtain ds where "resp = (acc @ [d]) @ ds"
    and "list_all2 (\<lambda>h d. object_data cd store ty h = Inr d) hs ds"
    by blast
  with d have "resp = acc @ (d # ds)
      \<and> list_all2 (\<lambda>h d. object_data cd store ty h = Inr d) (h # hs) (d # ds)"
    by simp
  then show ?case by blast
qed

lemma GetObjectsByHash_loop_all_Inr:
  "\<forall>h \<in> set hs. \<exists>d. object_data cd store ty h = Inr d \<Longrightarrow>
   \<exists>resp. GetObjectsByHash_loop cd store ty hs acc = Inr resp"
  by (induction hs arbitrary: acc) (auto split: sum.splits)

lemma GetObjectsByHash_loop_Inl:
  "\<exists>i<length hs. \<exists>e. object_data cd store ty (hs ! i) = Inl e \<Longrightarrow>
   \<exists>i e. i < length hs \<and> object_data cd store ty (hs ! i) = Inl e
      \<and> (\<forall>j<i. \<exists>d. object_data cd store ty (hs ! j) = Inr d)
      \<and> GetObjectsByHash_loop cd store ty hs acc = Inl e"
proof (induction hs arbitrary: acc)
  case Nil
  then show ?case by simp
next
  case (Cons h hs)
  show ?case
  proof (cases "object_data cd store ty h")
    case (Inl e)
    then have "0 < length (h # hs) \<and> object_data cd store ty ((h # hs) ! 0) = Inl e
      \<and> (\<forall>j<0. \<exists>d. object_data cd store ty ((h # hs) ! j) = Inr d)
      \<and> GetObjectsByHash_loop cd store ty (h # hs) acc = Inl e"
      by simp
    then show ?thesis by blast
  next
    case (Inr d)
    from Cons.prems obtain k e' where k: "k < length (h # hs)"
      and e': "object_data cd store ty ((h # hs) ! k) = Inl e'"
      by blast
    from e' Inr obtain k' where "k = Suc k'"
      by (cases k) auto
    with k e' have "\<exists>i<length hs. \<exists>e. object_data cd store ty (hs ! i) = Inl e"
      by auto
    from Cons.IH [OF this, of "acc @ [d]"] obtain i e where i: "i < length hs"
      and e: "object_data cd store ty (hs ! i) = Inl e"
      and before: "\<forall>j<i. \<exists>d. object_data cd store ty (hs ! j) = Inr d"
      and res: "GetObjectsByHash_loop cd store ty hs (acc @ [d]) = Inl e"
      by blast
    have "\<forall>j<Suc i. \<exists>d. object_data cd store ty ((h # hs) ! j) = Inr d"
      using before Inr by (auto simp: nth_Cons split: nat.splits)
    with i e res Inr have "Suc i < length (h # hs)
      \<and> object_data cd store ty ((h # hs) ! Suc i) = Inl e
      \<and> (\<forall>j<Suc i. \<exists>d. object_data cd store ty ((h # hs) ! j) = Inr d)
      \<and> GetObjectsByHash_loop cd store ty (h # hs) acc = Inl e"
      by simp
    then show ?thesis by blast
  qed
qed

lemma object_data_Inr:
  assumes "object_data cd store ty h = Inr d"
  shows "(ty = HashRequest_BODIES \<longrightarrow>
            d = (case GetBodyByHash store h of Some obj \<Rightarrow> MarshalBody cd obj | None \<Rightarrow> []))
       \<and> (ty = HashRequest_RECEIPTS \<longrightarrow>
            (\<exists>raw. GetReceiptsByHash store h = Inr raw \<and> d = MarshalReceipts cd raw))
       \<and> (ty \<noteq> HashRequest_BODIES \<and> ty \<noteq> HashRequest_RECEIPTS \<longrightarrow> d = [])"
proof (intro conjI impI)
  assume "ty = HashRequest_BODIES"
  with assms show "d = (case GetBodyByHash store h of
                          Some obj \<Rightarrow> MarshalBody cd obj | None \<Rightarrow> [])"
    by (cases "GetBodyByHash store h") (auto simp: object_data_def)
next
  assume "ty = HashRequest_RECEIPTS"
  with assms show "\<exists>raw. GetReceiptsByHash store h = Inr raw \<and> d = MarshalReceipts cd raw"
    by (cases "GetReceiptsByHash store h") (auto simp: object_data_def)
next
  assume "ty \<noteq> HashRequest_BODIES \<and> ty \<noteq> HashRequest_RECEIPTS"
  with assms show "d = []"
    by (auto simp: object_data_def)
qed

text \<open>
  C3. When \<^verbatim>\<open>GetObjectsByHash\<close> returns a response, the request decoded to a list of
  hashes, the response has one element for each hash, in the order of the request, and
  the element at position \<open>i\<close> is: for bodies, the encoded body of hash \<open>i\<close> when the
  store has it and the empty byte string when it has not; for receipts, the encoded
  receipts, which the store returned without error. For a kind that is neither, every
  element is empty.
\<close>

theorem GetObjectsByHash_response:
  assumes "GetObjectsByHash cd store req = Inr resp"
  shows "\<exists>hs. DecodeHashes cd req = Inr hs
          \<and> length resp = length hs
          \<and> (\<forall>i<length hs.
               (kind req = HashRequest_BODIES \<longrightarrow>
                  resp ! i = (case GetBodyByHash store (hs ! i) of
                                Some obj \<Rightarrow> MarshalBody cd obj | None \<Rightarrow> []))
               \<and> (kind req = HashRequest_RECEIPTS \<longrightarrow>
                  (\<exists>raw. GetReceiptsByHash store (hs ! i) = Inr raw
                         \<and> resp ! i = MarshalReceipts cd raw))
               \<and> (kind req \<noteq> HashRequest_BODIES \<and> kind req \<noteq> HashRequest_RECEIPTS \<longrightarrow>
                  resp ! i = []))"
proof -
  from assms obtain hs where hs: "DecodeHashes cd req = Inr hs"
    and loop: "GetObjectsByHash_loop cd store (kind req) hs [] = Inr resp"
    by (auto simp: GetObjectsByHash_def split: sum.splits)
  from GetObjectsByHash_loop_Inr [OF loop]
  have all: "list_all2 (\<lambda>h d. object_data cd store (kind req) h = Inr d) hs resp"
    by simp
  then have len: "length resp = length hs"
    by (simp add: list_all2_lengthD)
  have "\<forall>i<length hs. object_data cd store (kind req) (hs ! i) = Inr (resp ! i)"
    using all by (simp add: list_all2_conv_all_nth)
  then have "\<forall>i<length hs.
               (kind req = HashRequest_BODIES \<longrightarrow>
                  resp ! i = (case GetBodyByHash store (hs ! i) of
                                Some obj \<Rightarrow> MarshalBody cd obj | None \<Rightarrow> []))
               \<and> (kind req = HashRequest_RECEIPTS \<longrightarrow>
                  (\<exists>raw. GetReceiptsByHash store (hs ! i) = Inr raw
                         \<and> resp ! i = MarshalReceipts cd raw))
               \<and> (kind req \<noteq> HashRequest_BODIES \<and> kind req \<noteq> HashRequest_RECEIPTS \<longrightarrow>
                  resp ! i = [])"
    using object_data_Inr by blast
  with hs len show ?thesis by blast
qed

theorem GetObjectsByHash_response_witness:
  "GetObjectsByHash example_codec example_store
     \<lparr>hashes = [''a'', ''bb''], kind = HashRequest_BODIES\<rparr> = Inr [[7], []]
   \<and> DecodeHashes example_codec \<lparr>hashes = [''a'', ''bb''], kind = HashRequest_BODIES\<rparr>
      = Inr [1, 2]
   \<and> length [[7], [] :: bytes] = length [1, 2 :: Hash]
   \<and> GetBodyByHash example_store 1 = Some 7 \<and> MarshalBody example_codec 7 = [7]
   \<and> GetBodyByHash example_store 2 = None"
proof -
  have run: "GetObjectsByHash example_codec example_store
     \<lparr>hashes = [''a'', ''bb''], kind = HashRequest_BODIES\<rparr> = Inr [[7], []]"
    by (simp add: GetObjectsByHash_def object_data_def example_codec_simps
        example_store_simps)
  from GetObjectsByHash_response [OF run] run show ?thesis
    by (simp add: example_codec_simps example_store_simps)
qed

text \<open>
  C8. For bodies the call succeeds whatever the store holds, with the empty byte string
  at the position of every body that is not found. For receipts, when the lookup of some
  hash returns an error, the call returns the error of the first such hash and no
  response.
\<close>

theorem GetObjectsByHash_asymmetric:
  assumes "DecodeHashes cd req = Inr hs"
  shows "(kind req = HashRequest_BODIES \<longrightarrow>
            (\<exists>resp. GetObjectsByHash cd store req = Inr resp
               \<and> length resp = length hs
               \<and> (\<forall>i<length hs. GetBodyByHash store (hs ! i) = None \<longrightarrow> resp ! i = [])))
       \<and> (kind req = HashRequest_RECEIPTS
            \<and> (\<exists>i<length hs. \<exists>e. GetReceiptsByHash store (hs ! i) = Inl e) \<longrightarrow>
            (\<exists>i e. i < length hs \<and> GetReceiptsByHash store (hs ! i) = Inl e
               \<and> (\<forall>j<i. \<exists>raw. GetReceiptsByHash store (hs ! j) = Inr raw)
               \<and> GetObjectsByHash cd store req = Inl e))"
proof (intro conjI impI)
  assume bodies: "kind req = HashRequest_BODIES"
  then have "\<forall>h \<in> set hs. \<exists>d. object_data cd store (kind req) h = Inr d"
    by (auto simp: object_data_def split: option.splits)
  from GetObjectsByHash_loop_all_Inr [OF this, of "[]"] obtain resp
    where loop: "GetObjectsByHash_loop cd store (kind req) hs [] = Inr resp"
    by blast
  from GetObjectsByHash_loop_Inr [OF loop]
  have all: "list_all2 (\<lambda>h d. object_data cd store (kind req) h = Inr d) hs resp"
    by simp
  then have "\<forall>i<length hs. object_data cd store (kind req) (hs ! i) = Inr (resp ! i)"
    by (simp add: list_all2_conv_all_nth)
  with bodies have "\<forall>i<length hs. GetBodyByHash store (hs ! i) = None \<longrightarrow> resp ! i = []"
    by (auto simp: object_data_def)
  moreover have "length resp = length hs"
    using all by (simp add: list_all2_lengthD)
  moreover have "GetObjectsByHash cd store req = Inr resp"
    using assms loop by (simp add: GetObjectsByHash_def)
  ultimately show "\<exists>resp. GetObjectsByHash cd store req = Inr resp
               \<and> length resp = length hs
               \<and> (\<forall>i<length hs. GetBodyByHash store (hs ! i) = None \<longrightarrow> resp ! i = [])"
    by blast
next
  assume "kind req = HashRequest_RECEIPTS
            \<and> (\<exists>i<length hs. \<exists>e. GetReceiptsByHash store (hs ! i) = Inl e)"
  then have receipts: "kind req = HashRequest_RECEIPTS"
    and "\<exists>i<length hs. \<exists>e. GetReceiptsByHash store (hs ! i) = Inl e"
    by simp_all
  then have "\<exists>i<length hs. \<exists>e. object_data cd store (kind req) (hs ! i) = Inl e"
    by (auto simp: object_data_def)
  from GetObjectsByHash_loop_Inl [OF this, of "[]"] obtain i e where i: "i < length hs"
    and e: "object_data cd store (kind req) (hs ! i) = Inl e"
    and before: "\<forall>j<i. \<exists>d. object_data cd store (kind req) (hs ! j) = Inr d"
    and res: "GetObjectsByHash_loop cd store (kind req) hs [] = Inl e"
    by blast
  have "GetReceiptsByHash store (hs ! i) = Inl e"
    using e receipts by (auto simp: object_data_def split: sum.splits)
  moreover have "\<forall>j<i. \<exists>raw. GetReceiptsByHash store (hs ! j) = Inr raw"
  proof (intro allI impI)
    fix j assume "j < i"
    with before obtain d where "object_data cd store (kind req) (hs ! j) = Inr d"
      by blast
    with receipts show "\<exists>raw. GetReceiptsByHash store (hs ! j) = Inr raw"
      by (cases "GetReceiptsByHash store (hs ! j)") (auto simp: object_data_def)
  qed
  moreover have "GetObjectsByHash cd store req = Inl e"
    using assms res by (simp add: GetObjectsByHash_def)
  ultimately show "\<exists>i e. i < length hs \<and> GetReceiptsByHash store (hs ! i) = Inl e
               \<and> (\<forall>j<i. \<exists>raw. GetReceiptsByHash store (hs ! j) = Inr raw)
               \<and> GetObjectsByHash cd store req = Inl e"
    using i by blast
qed

theorem GetObjectsByHash_asymmetric_witness:
  "DecodeHashes example_codec \<lparr>hashes = [''a'', ''bb''], kind = HashRequest_BODIES\<rparr>
      = Inr [1, 2]
   \<and> GetBodyByHash example_store 2 = None
   \<and> GetObjectsByHash example_codec example_store
        \<lparr>hashes = [''a'', ''bb''], kind = HashRequest_BODIES\<rparr> = Inr [[7], []]
   \<and> DecodeHashes example_codec \<lparr>hashes = [''a'', ''bb'', ''ccc''], kind = HashRequest_RECEIPTS\<rparr>
      = Inr [1, 2, 3]
   \<and> GetReceiptsByHash example_store 2 = Inl (Errorf ''receipts not found'')
   \<and> GetObjectsByHash example_codec example_store
        \<lparr>hashes = [''a'', ''bb'', ''ccc''], kind = HashRequest_RECEIPTS\<rparr>
      = Inl (Errorf ''receipts not found'')"
proof -
  have b: "DecodeHashes example_codec \<lparr>hashes = [''a'', ''bb''], kind = HashRequest_BODIES\<rparr>
      = Inr [1, 2]"
    and r: "DecodeHashes example_codec
        \<lparr>hashes = [''a'', ''bb'', ''ccc''], kind = HashRequest_RECEIPTS\<rparr> = Inr [1, 2, 3]"
    by (simp_all add: example_codec_simps)
  have run: "GetObjectsByHash example_codec example_store
        \<lparr>hashes = [''a'', ''bb''], kind = HashRequest_BODIES\<rparr> = Inr [[7], []]"
    "GetObjectsByHash example_codec example_store
        \<lparr>hashes = [''a'', ''bb'', ''ccc''], kind = HashRequest_RECEIPTS\<rparr>
      = Inl (Errorf ''receipts not found'')"
    by (simp_all add: GetObjectsByHash_def object_data_def example_codec_simps
        example_store_simps)
  from GetObjectsByHash_asymmetric [OF b, of example_store]
    GetObjectsByHash_asymmetric [OF r, of example_store] b r run
  show ?thesis
    by (simp add: example_store_simps)
qed

text \<open>
  C7. A request with a number other than 0 and a hash string that is not empty returns
  the error "cannot have both", whatever the store holds: no lookup is made and no
  header is returned.
\<close>

theorem GetHeaders_cannot_have_both:
  assumes "reqNumber req \<noteq> 0" and "reqHash req \<noteq> ''''"
  shows "GetHeaders cd store req = Inl (Errorf ''cannot have both'')"
  using assms by (simp add: GetHeaders_def)

theorem GetHeaders_cannot_have_both_witness:
  "reqNumber \<lparr>reqNumber = 5, reqHash = ''0xabcd'', reqAmount = 1, reqSkip = 0\<rparr> \<noteq> 0
   \<and> reqHash \<lparr>reqNumber = 5, reqHash = ''0xabcd'', reqAmount = 1, reqSkip = 0\<rparr> \<noteq> ''''
   \<and> GetHeaders example_codec example_store
        \<lparr>reqNumber = 5, reqHash = ''0xabcd'', reqAmount = 1, reqSkip = 0\<rparr>
      = Inl (Errorf ''cannot have both'')"
  using GetHeaders_cannot_have_both
    [of "\<lparr>reqNumber = 5, reqHash = ''0xabcd'', reqAmount = 1, reqSkip = 0\<rparr>"
        example_codec example_store]
  by simp





subsection \<open>GetHeaders by number\<close>

lemma sint_succ:
  fixes x y :: "64 word"
  assumes "x <s y"
  shows "sint (x + 1) = sint x + 1"
proof -
  have "sint x < sint y" using assms by (simp add: word_sless_alt)
  moreover have "sint y < 2 ^ 63" using sint_lt [of y] by simp
  moreover have "- (2 ^ 63) \<le> sint x" using sint_ge [of x] by simp
  ultimately have "- (2 ^ 63) \<le> sint x + 1" and "sint x + 1 < 2 ^ 63" by linarith+
  then have "signed_take_bit 63 (sint x + 1) = sint x + 1"
    by (simp add: signed_take_bit_int_eq_self)
  then show ?thesis by (simp add: sint_word_ariths)
qed

lemma GetHeaders_loop_spec:
  assumes wf: "\<forall>k h. GetHeaderByNumber store k = Some h \<longrightarrow> Number h = k"
  shows "\<exists>hs. GetHeaders_loop cd store amount skip count origin resp
               = resp @ map (MarshalHeader cd) hs
     \<and> int (length hs) \<le> max 0 (sint amount - sint count)
     \<and> (\<forall>i<length hs.
           GetHeaderByNumber store (Number origin + of_nat (Suc i) * skip) = Some (hs ! i)
           \<and> \<not> Number origin + of_nat (Suc i) * skip <s 0)
     \<and> (int (length hs) = max 0 (sint amount - sint count)
        \<or> Number origin + of_nat (Suc (length hs)) * skip <s 0
        \<or> GetHeaderByNumber store (Number origin + of_nat (Suc (length hs)) * skip) = None)"
  using wf
proof (induction cd store amount skip count origin resp rule: GetHeaders_loop.induct)
  case (1 cd store amount skip count origin resp)
  let ?P = "\<lambda>hs. GetHeaders_loop cd store amount skip count origin resp
               = resp @ map (MarshalHeader cd) hs
     \<and> int (length hs) \<le> max 0 (sint amount - sint count)
     \<and> (\<forall>i<length hs.
           GetHeaderByNumber store (Number origin + of_nat (Suc i) * skip) = Some (hs ! i)
           \<and> \<not> Number origin + of_nat (Suc i) * skip <s 0)
     \<and> (int (length hs) = max 0 (sint amount - sint count)
        \<or> Number origin + of_nat (Suc (length hs)) * skip <s 0
        \<or> GetHeaderByNumber store (Number origin + of_nat (Suc (length hs)) * skip) = None)"
  show ?case
  proof (cases "count <s amount")
    case False
    then have "sint amount - sint count \<le> 0"
      by (simp add: word_sless_alt)
    with False have "?P []" by simp
    then show ?thesis by blast
  next
    case lt: True
    then have diff: "1 \<le> sint amount - sint count"
      by (simp add: word_sless_alt)
    show ?thesis
    proof (cases "Number origin + skip <s 0")
      case True
      with lt have "?P []" by (simp add: Let_def)
      then show ?thesis by blast
    next
      case nonneg: False
      show ?thesis
      proof (cases "GetHeaderByNumber store (Number origin + skip)")
        case None
        with lt nonneg have "?P []" by (simp add: Let_def)
        then show ?thesis by blast
      next
        case (Some origin')
        have num: "Number origin' = Number origin + skip"
          using "1.prems" Some by blast
        from "1.IH" [OF lt refl nonneg Some "1.prems"]
        obtain hs where run: "GetHeaders_loop cd store amount skip (count + 1) origin'
              (resp @ [MarshalHeader cd origin'])
            = (resp @ [MarshalHeader cd origin']) @ map (MarshalHeader cd) hs"
          and len: "int (length hs) \<le> max 0 (sint amount - sint (count + 1))"
          and found: "\<forall>i<length hs.
             GetHeaderByNumber store (Number origin' + of_nat (Suc i) * skip) = Some (hs ! i)
             \<and> \<not> Number origin' + of_nat (Suc i) * skip <s 0"
          and stop: "int (length hs) = max 0 (sint amount - sint (count + 1))
             \<or> Number origin' + of_nat (Suc (length hs)) * skip <s 0
             \<or> GetHeaderByNumber store (Number origin' + of_nat (Suc (length hs)) * skip)
                = None"
          by blast
        have shift: "Number origin' + of_nat (Suc i) * skip
                     = Number origin + of_nat (Suc (Suc i)) * skip" for i
          by (simp add: num algebra_simps)
        have cnt: "sint (count + 1) = sint count + 1"
          using lt by (rule sint_succ)
        have 1: "GetHeaders_loop cd store amount skip count origin resp
                 = resp @ map (MarshalHeader cd) (origin' # hs)"
          using lt nonneg Some run
          by (subst GetHeaders_loop.simps) (simp add: Let_def)
        have 2: "int (length (origin' # hs)) \<le> max 0 (sint amount - sint count)"
          using len diff cnt by simp
        have 3: "\<forall>i<length (origin' # hs).
           GetHeaderByNumber store (Number origin + of_nat (Suc i) * skip)
             = Some ((origin' # hs) ! i)
           \<and> \<not> Number origin + of_nat (Suc i) * skip <s 0"
        proof (intro allI impI)
          fix i assume i: "i < length (origin' # hs)"
          show "GetHeaderByNumber store (Number origin + of_nat (Suc i) * skip)
             = Some ((origin' # hs) ! i)
           \<and> \<not> Number origin + of_nat (Suc i) * skip <s 0"
          proof (cases i)
            case 0
            with Some nonneg show ?thesis by simp
          next
            case (Suc j)
            with i have "j < length hs" by simp
            with found have "GetHeaderByNumber store (Number origin' + of_nat (Suc j) * skip)
                 = Some (hs ! j)
               \<and> \<not> Number origin' + of_nat (Suc j) * skip <s 0"
              by blast
            then show ?thesis
              unfolding shift Suc by simp
          qed
        qed
        have 4: "int (length (origin' # hs)) = max 0 (sint amount - sint count)
          \<or> Number origin + of_nat (Suc (length (origin' # hs))) * skip <s 0
          \<or> GetHeaderByNumber store
               (Number origin + of_nat (Suc (length (origin' # hs))) * skip) = None"
          using stop diff cnt unfolding shift by auto
        from 1 2 3 4 have "?P (origin' # hs)" by blast
        then show ?thesis by blast
      qed
    qed
  qed
qed


lemma nonneg_uint:
  fixes x :: "64 word"
  assumes "\<not> x <s 0"
  shows "uint x = sint x" and "uint x < 2 ^ 63"
proof -
  from assms have 0: "0 \<le> sint x" by (simp add: word_sless_alt)
  have lt: "sint x < 2 ^ 63" using sint_lt [of x] by simp
  then have "sint x < 2 ^ 64" by simp
  with 0 have "take_bit 64 (sint x) = sint x"
    by (rule take_bit_int_eq_self)
  then show eq: "uint x = sint x" by (simp add: uint_sint)
  show "uint x < 2 ^ 63" using lt eq by simp
qed

lemma header_number_exact:
  fixes n s :: "64 word"
  assumes n: "0 <s n" and s: "0 \<le>s s"
    and nonneg: "\<forall>j. 0 < j \<and> j \<le> i \<longrightarrow> \<not> n + of_nat j * (s + 1) <s 0"
  shows "uint (n + of_nat i * (s + 1)) = sint n + int i * (sint s + 1)"
  using nonneg
proof (induction i)
  case 0
  have "\<not> n <s 0" using n by (simp add: word_sless_alt)
  then show ?case by (simp add: nonneg_uint)
next
  case (Suc i)
  let ?x = "n + of_nat i * (s + 1)"
  have prev: "uint ?x = sint n + int i * (sint s + 1)"
    using Suc by simp
  have "\<not> ?x <s 0"
  proof (cases i)
    case 0
    then show ?thesis using n by (simp add: word_sless_alt)
  next
    case (Suc k)
    then have "0 < i \<and> i \<le> Suc i" by simp
    with Suc.prems show ?thesis by blast
  qed
  then have small: "uint ?x < 2 ^ 63" by (rule nonneg_uint)
  have "\<not> s <s 0" using s by (simp add: word_sle_eq word_sless_alt)
  then have us: "uint s = sint s" and us_lt: "uint s < 2 ^ 63" by (rule nonneg_uint)+
  have "uint (s + 1) = (uint s + 1) mod 2 ^ 64"
    by (simp add: uint_word_ariths)
  also have "\<dots> = uint s + 1"
    using us_lt by (intro mod_pos_pos_trivial) simp_all
  finally have step: "uint (s + 1) = uint s + 1" .
  have "uint (?x + (s + 1)) = (uint ?x + uint (s + 1)) mod 2 ^ 64"
    by (simp add: uint_word_ariths)
  also have "\<dots> = uint ?x + uint (s + 1)"
    using small us_lt unfolding step by (intro mod_pos_pos_trivial) simp_all
  finally have "uint (?x + (s + 1)) = uint ?x + (sint s + 1)"
    using step us by simp
  moreover have "n + of_nat (Suc i) * (s + 1) = ?x + (s + 1)"
    by (simp add: algebra_simps)
  ultimately show ?case
    using prev by (simp add: algebra_simps)
qed


lemma sint_clamped_amount:
  "sint (if maxHeadersAmount <s a then maxHeadersAmount else a) = min (sint a) 190"
  by (simp add: maxHeadersAmount_def word_sless_alt)

text \<open>
  C2, as the code has it. The origin is appended before the amount is looked at, so a
  request for 0 headers at height 5 returns 1 header, more than the clamped amount. A
  negative number is converted to \<^verbatim>\<open>uint64\<close>: the request for number -1 returns the
  header of height \<open>2 ^ 64 - 1\<close> from a store that holds it.
\<close>

theorem GetHeaders_by_number_counterexample:
  "GetHeaders example_codec example_store
     \<lparr>reqNumber = 5, reqHash = '''', reqAmount = 0, reqSkip = 0\<rparr> = Inr [[5]]
   \<and> \<not> int (length [[5 :: 8 word]]) \<le> min (sint (0 :: 64 word)) 190
   \<and> GetHeaders example_codec
        (example_store\<lparr>GetHeaderByNumber :=
           (\<lambda>n. if n = 18446744073709551615 then Some (example_header n) else None)\<rparr>)
        \<lparr>reqNumber = 18446744073709551615, reqHash = '''', reqAmount = 1, reqSkip = 0\<rparr>
      = Inr [MarshalHeader example_codec (example_header 18446744073709551615)]
   \<and> sint (18446744073709551615 :: 64 word) = - 1
   \<and> uint (Number (example_header 18446744073709551615)) = 18446744073709551615"
  by (simp add: GetHeaders_def example_codec_simps example_store_simps example_header_Number
      maxHeadersAmount_def word_sless_alt)

text \<open>
  C2, amended. For a request by number \<open>n \<noteq> 0\<close> with an empty hash, on a store whose
  lookup by number returns headers of the number asked for: the call succeeds; the
  response is empty when the origin is absent; otherwise it holds between 1 and
  \<open>max 1 (min a 190)\<close> headers, the header at position \<open>i\<close> is the one the store holds
  at \<open>n + i (s + 1)\<close> computed in 64 bits, which for \<open>n > 0\<close> and \<open>s \<ge> 0\<close> is exactly the
  integer \<open>n + i (s + 1)\<close>; every height fetched after the origin is not negative as
  an \<^verbatim>\<open>int64\<close>; and the response ends where that bound is reached, or the next
  height is negative as an \<^verbatim>\<open>int64\<close>, or the store does not have it. These conditions
  determine the response: it stops at the first such height and not later.
\<close>

theorem GetHeaders_by_number:
  assumes number: "reqNumber req \<noteq> 0" and hash: "reqHash req = ''''"
    and wf: "\<forall>k h. GetHeaderByNumber store k = Some h \<longrightarrow> Number h = k"
  shows "\<exists>hs. GetHeaders cd store req = Inr (map (MarshalHeader cd) hs)
     \<and> (GetHeaderByNumber store (reqNumber req) = None \<longrightarrow> hs = [])
     \<and> (GetHeaderByNumber store (reqNumber req) \<noteq> None \<longrightarrow>
          1 \<le> length hs
          \<and> int (length hs) \<le> max 1 (min (sint (reqAmount req)) 190)
          \<and> (\<forall>i<length hs.
                GetHeaderByNumber store (reqNumber req + of_nat i * (reqSkip req + 1))
                  = Some (hs ! i)
                \<and> Number (hs ! i) = reqNumber req + of_nat i * (reqSkip req + 1)
                \<and> (0 < i \<longrightarrow> \<not> reqNumber req + of_nat i * (reqSkip req + 1) <s 0)
                \<and> (0 <s reqNumber req \<and> 0 \<le>s reqSkip req \<longrightarrow>
                     uint (Number (hs ! i))
                       = sint (reqNumber req) + int i * (sint (reqSkip req) + 1)))
          \<and> (int (length hs) = max 1 (min (sint (reqAmount req)) 190)
             \<or> reqNumber req + of_nat (length hs) * (reqSkip req + 1) <s 0
             \<or> GetHeaderByNumber store
                  (reqNumber req + of_nat (length hs) * (reqSkip req + 1)) = None))"
proof (cases "GetHeaderByNumber store (reqNumber req)")
  case None
  with number hash have "GetHeaders cd store req = Inr (map (MarshalHeader cd) [])"
    by (simp add: GetHeaders_def)
  with None show ?thesis by auto
next
  case (Some origin)
  let ?n = "reqNumber req" and ?skip = "reqSkip req + 1"
  let ?amount = "if maxHeadersAmount <s reqAmount req then maxHeadersAmount
                 else reqAmount req"
  let ?m = "min (sint (reqAmount req)) 190"
  have origin: "Number origin = ?n"
    using wf Some by blast
  from GetHeaders_loop_spec [OF wf, of cd ?amount ?skip 1 origin "[MarshalHeader cd origin]"]
  obtain hs where run: "GetHeaders_loop cd store ?amount ?skip 1 origin [MarshalHeader cd origin]
        = [MarshalHeader cd origin] @ map (MarshalHeader cd) hs"
    and len: "int (length hs) \<le> max 0 (?m - 1)"
    and found: "\<forall>i<length hs.
           GetHeaderByNumber store (?n + of_nat (Suc i) * ?skip) = Some (hs ! i)
           \<and> \<not> ?n + of_nat (Suc i) * ?skip <s 0"
    and stop: "int (length hs) = max 0 (?m - 1)
        \<or> ?n + of_nat (Suc (length hs)) * ?skip <s 0
        \<or> GetHeaderByNumber store (?n + of_nat (Suc (length hs)) * ?skip) = None"
    unfolding origin sint_clamped_amount by auto
  let ?hs = "origin # hs"
  have res: "GetHeaders cd store req = Inr (map (MarshalHeader cd) ?hs)"
    using number hash Some run by (simp add: GetHeaders_def Let_def)
  have bound: "int (length ?hs) \<le> max 1 ?m"
    using len by auto
  have at: "GetHeaderByNumber store (?n + of_nat i * ?skip) = Some (?hs ! i)"
    if "i < length ?hs" for i
  proof (cases i)
    case 0
    with Some show ?thesis by simp
  next
    case (Suc j)
    with that have "j < length hs" by simp
    with found have "GetHeaderByNumber store (?n + of_nat (Suc j) * ?skip) = Some (hs ! j)"
      by blast
    with Suc show ?thesis by simp
  qed
  have nonneg: "\<not> ?n + of_nat j * ?skip <s 0" if "0 < j" and "j < length ?hs" for j
  proof -
    from that obtain k where "j = Suc k" and "k < length hs"
      by (cases j) auto
    with found show ?thesis by blast
  qed
  have exact: "uint (Number (?hs ! i)) = sint ?n + int i * (sint (reqSkip req) + 1)"
    if i: "i < length ?hs" and pos: "0 <s ?n" "0 \<le>s reqSkip req" for i
  proof -
    have "\<forall>j. 0 < j \<and> j \<le> i \<longrightarrow> \<not> ?n + of_nat j * ?skip <s 0"
      using nonneg i by (meson le_less_trans)
    from header_number_exact [OF pos this]
    have "uint (?n + of_nat i * ?skip) = sint ?n + int i * (sint (reqSkip req) + 1)" .
    moreover have "Number (?hs ! i) = ?n + of_nat i * ?skip"
      using wf at [OF i] by blast
    ultimately show ?thesis by simp
  qed
  have all: "\<forall>i<length ?hs.
                GetHeaderByNumber store (?n + of_nat i * ?skip) = Some (?hs ! i)
                \<and> Number (?hs ! i) = ?n + of_nat i * ?skip
                \<and> (0 < i \<longrightarrow> \<not> ?n + of_nat i * ?skip <s 0)
                \<and> (0 <s ?n \<and> 0 \<le>s reqSkip req \<longrightarrow>
                     uint (Number (?hs ! i)) = sint ?n + int i * (sint (reqSkip req) + 1))"
    using at exact wf nonneg by blast
  have halt: "int (length ?hs) = max 1 ?m
             \<or> ?n + of_nat (length ?hs) * ?skip <s 0
             \<or> GetHeaderByNumber store (?n + of_nat (length ?hs) * ?skip) = None"
    using stop by auto
  have one: "1 \<le> length ?hs" by simp
  show ?thesis
    apply (rule exI [of _ ?hs])
    apply (intro conjI impI)
    subgoal by (rule res)
    subgoal using Some by simp
    subgoal by (rule one)
    subgoal by (rule bound)
    subgoal by (rule all)
    subgoal by (rule halt)
    done
qed

theorem GetHeaders_by_number_witness:
  "reqNumber \<lparr>reqNumber = 10, reqHash = '''', reqAmount = 500, reqSkip = 0\<rparr> \<noteq> 0
   \<and> reqHash \<lparr>reqNumber = 10, reqHash = '''', reqAmount = 500, reqSkip = 0\<rparr> = ''''
   \<and> GetHeaders example_codec example_store
        \<lparr>reqNumber = 10, reqHash = '''', reqAmount = 500, reqSkip = 0\<rparr>
      = Inr (map (MarshalHeader example_codec)
               (map example_header [10, 11, 12, 13, 14, 15, 16, 17, 18, 19, 20]))
   \<and> GetHeaderByNumber example_store 21 = None"
proof -
  have n: "reqNumber \<lparr>reqNumber = 10, reqHash = '''', reqAmount = 500, reqSkip = 0\<rparr> \<noteq> 0"
    and h: "reqHash \<lparr>reqNumber = 10, reqHash = '''', reqAmount = 500, reqSkip = 0\<rparr> = ''''"
    by simp_all
  have run: "GetHeaders example_codec example_store
        \<lparr>reqNumber = 10, reqHash = '''', reqAmount = 500, reqSkip = 0\<rparr>
      = Inr (map (MarshalHeader example_codec)
               (map example_header [10, 11, 12, 13, 14, 15, 16, 17, 18, 19, 20]))"
    by (simp add: GetHeaders_def example_codec_simps example_store_simps
        example_header_Number maxHeadersAmount_def word_sless_alt Let_def)
  from GetHeaders_by_number [OF n h example_store_numbers, of example_codec] run
  show ?thesis
    by (simp add: example_store_simps)
qed

end
